theory Spec2Isabelle
  imports Main "HOL-Library.Word"
begin

section \<open>Strings and runes\<close>

text \<open>
  The migration runner (package \<open>supabase\<close>, file with \<open>MigrationRunner\<close>) works on Go
  strings. The splitter converts its argument with \<^verbatim>\<open>[]rune(sql)\<close> and scans code points,
  and the library functions it calls (\<^verbatim>\<open>strings.TrimSpace\<close>, \<^verbatim>\<open>strings.ToUpper\<close>,
  \<^verbatim>\<open>strings.Fields\<close>) decode their argument rune by rune as well. A Go string is
  therefore modelled by the sequence of runes that ranging over it yields; a rune is its
  code point. The conversion yields valid code points only (U+FFFD for a byte that is no
  UTF-8), so \<^verbatim>\<open>buf.WriteRune\<close> followed by \<^verbatim>\<open>buf.String()\<close> gives back the runes
  written. String literals of the source are ASCII and are written \<open>runes ''...''\<close>.
\<close>

type_synonym rune = nat
type_synonym gostring = "rune list"

definition runes :: "string \<Rightarrow> gostring" where
  "runes s = map of_char s"

abbreviation (input) NEWLINE :: rune where "NEWLINE \<equiv> 10"
abbreviation (input) QUOTE2 :: rune where "QUOTE2 \<equiv> 34"
abbreviation (input) DOLLAR :: rune where "DOLLAR \<equiv> 36"
abbreviation (input) QUOTE1 :: rune where "QUOTE1 \<equiv> 39"
abbreviation (input) LPAREN :: rune where "LPAREN \<equiv> 40"
abbreviation (input) DASH :: rune where "DASH \<equiv> 45"
abbreviation (input) DOT :: rune where "DOT \<equiv> 46"
abbreviation (input) SEMICOLON :: rune where "SEMICOLON \<equiv> 59"
abbreviation (input) UNDERSCORE :: rune where "UNDERSCORE \<equiv> 95"
abbreviation (input) RuneError :: rune where "RuneError \<equiv> 65533"

text \<open>
  \<^verbatim>\<open>unicode.IsSpace\<close>: the Latin-1 spaces tab, line feed, vertical tab, form feed, carriage
  return, space, U+0085 and U+00A0, and the other code points of the Unicode property
  White_Space.
\<close>

definition isSpace :: "rune \<Rightarrow> bool" where
  "isSpace r \<longleftrightarrow>
     (9 \<le> r \<and> r \<le> 13) \<or> r = 32 \<or> r = 133 \<or> r = 160 \<or> r = 5760 \<or>
     (8192 \<le> r \<and> r \<le> 8202) \<or> r = 8232 \<or> r = 8233 \<or> r = 8239 \<or> r = 8287 \<or> r = 12288"

text \<open>\<^verbatim>\<open>strings.TrimSpace\<close>: leading and trailing white space removed.\<close>

definition TrimSpace :: "gostring \<Rightarrow> gostring" where
  "TrimSpace s = rev (dropWhile isSpace (rev (dropWhile isSpace s)))"

text \<open>
  \<^verbatim>\<open>unicode.ToUpper\<close> maps the ASCII letters a to z to A to Z and leaves every other ASCII
  rune alone. Beyond ASCII it consults the Unicode case tables, which are no part of the
  repository: they are the parameter \<open>up\<close> of every function that changes case.
  \<^verbatim>\<open>strings.ToUpper\<close> maps the string rune by rune.
\<close>

definition unicode_ToUpper :: "(rune \<Rightarrow> rune) \<Rightarrow> rune \<Rightarrow> rune" where
  "unicode_ToUpper up r =
     (if r \<le> 127 then (if 97 \<le> r \<and> r \<le> 122 then r - 32 else r) else up r)"

definition ToUpper :: "(rune \<Rightarrow> rune) \<Rightarrow> gostring \<Rightarrow> gostring" where
  "ToUpper up s = map (unicode_ToUpper up) s"

definition HasPrefix :: "gostring \<Rightarrow> gostring \<Rightarrow> bool" where
  "HasPrefix s pre \<longleftrightarrow> length s \<ge> length pre \<and> take (length pre) s = pre"

definition HasSuffix :: "gostring \<Rightarrow> gostring \<Rightarrow> bool" where
  "HasSuffix s suf \<longleftrightarrow> length s \<ge> length suf \<and> drop (length s - length suf) s = suf"

text \<open>\<^verbatim>\<open>strings.Contains\<close>: the substring occurs at some position.\<close>

fun Contains :: "gostring \<Rightarrow> gostring \<Rightarrow> bool" where
  "Contains [] substr = (substr = [])"
| "Contains (c # s) substr = (HasPrefix (c # s) substr \<or> Contains s substr)"

text \<open>\<^verbatim>\<open>strings.Index\<close>: the position of the first occurrence, or -1.\<close>

fun Index :: "gostring \<Rightarrow> gostring \<Rightarrow> int" where
  "Index [] substr = (if substr = [] then 0 else -1)"
| "Index (c # s) substr =
     (if HasPrefix (c # s) substr then 0
      else (let i = Index s substr in if i < 0 then -1 else i + 1))"

definition TrimSuffix :: "gostring \<Rightarrow> gostring \<Rightarrow> gostring" where
  "TrimSuffix s suf = (if HasSuffix s suf then take (length s - length suf) s else s)"

text \<open>\<^verbatim>\<open>strings.Trim\<close>: leading and trailing runes of the cutset removed.\<close>

definition Trim :: "gostring \<Rightarrow> gostring \<Rightarrow> gostring" where
  "Trim s cutset =
     rev (dropWhile (\<lambda>r. r \<in> set cutset) (rev (dropWhile (\<lambda>r. r \<in> set cutset) s)))"

text \<open>
  \<^verbatim>\<open>strings.Fields\<close>: the maximal runs of non-space runes, in order. \<open>cur\<close> is the field
  being read.
\<close>

fun fieldsFrom :: "gostring \<Rightarrow> gostring \<Rightarrow> gostring list" where
  "fieldsFrom cur [] = (if cur = [] then [] else [cur])"
| "fieldsFrom cur (r # rs) =
     (if isSpace r then (if cur = [] then fieldsFrom [] rs else cur # fieldsFrom [] rs)
      else fieldsFrom (cur @ [r]) rs)"

definition Fields :: "gostring \<Rightarrow> gostring list" where
  "Fields s = fieldsFrom [] s"

section \<open>splitSQLStatements\<close>

text \<open>
  The local variables of \<^verbatim>\<open>splitSQLStatements\<close>: the statements emitted so far, the
  buffer of the statement being read, and the three mode flags with the open dollar-quote
  tag.
\<close>

record splitState =
  statements :: "gostring list"
  buf :: "gostring"
  inString :: bool
  inComment :: bool
  inDollarQuote :: bool
  dollarQuoteTag :: "gostring"

definition initState :: splitState where
  "initState = \<lparr>statements = [], buf = [], inString = False, inComment = False,
                 inDollarQuote = False, dollarQuoteTag = []\<rparr>"

text \<open>The runes a dollar-quote tag may hold: underscore, ASCII letters and digits.\<close>

definition isTagRune :: "rune \<Rightarrow> bool" where
  "isTagRune r \<longleftrightarrow>
     r = UNDERSCORE \<or> (97 \<le> r \<and> r \<le> 122) \<or> (65 \<le> r \<and> r \<le> 90) \<or> (48 \<le> r \<and> r \<le> 57)"

text \<open>
  Dollar-quote handling of one iteration. \<open>char\<close> is \<^verbatim>\<open>runes[i]\<close> and \<open>rest\<close> the runes
  after it. The inner loop moves \<^verbatim>\<open>tagEnd\<close> over the tag runes that follow; a tag is matched
  when a dollar sign stands there. The scan position is not moved.
\<close>

definition handleDollar :: "rune \<Rightarrow> gostring \<Rightarrow> splitState \<Rightarrow> splitState" where
  "handleDollar char rest st =
     (if char = DOLLAR \<and> \<not> inString st \<and> \<not> inComment st then
        (case dropWhile isTagRune rest of
           [] \<Rightarrow> st
         | d # _ \<Rightarrow>
             if d = DOLLAR then
               (let tag = char # takeWhile isTagRune rest @ [d] in
                if \<not> inDollarQuote st then
                  st\<lparr>inDollarQuote := True, dollarQuoteTag := tag\<rparr>
                else if tag = dollarQuoteTag st then
                  st\<lparr>inDollarQuote := False, dollarQuoteTag := []\<rparr>
                else st)
             else st)
      else st)"

text \<open>Line-comment handling of one iteration.\<close>

definition handleComment :: "rune \<Rightarrow> gostring \<Rightarrow> splitState \<Rightarrow> splitState" where
  "handleComment char rest st =
     (if \<not> inString st \<and> \<not> inDollarQuote st then
        (if inComment st then
           (if char = NEWLINE then st\<lparr>inComment := False\<rparr> else st)
         else
           (if char = DASH \<and> rest \<noteq> [] \<and> hd rest = DASH then st\<lparr>inComment := True\<rparr> else st))
      else st)"

text \<open>The statement separator: the trimmed buffer is emitted when it is not empty.\<close>

definition emit :: "splitState \<Rightarrow> splitState" where
  "emit st =
     (let stmt = TrimSpace (buf st) in
      (if stmt \<noteq> [] then st\<lparr>statements := statements st @ [stmt]\<rparr> else st)\<lparr>buf := []\<rparr>)"

text \<open>
  One iteration of the loop at \<open>char\<close>, with \<open>rest\<close> the runes after it: the state after
  the iteration and the runes still to scan. The escaped quote consumes two runes.
\<close>

definition step :: "rune \<Rightarrow> gostring \<Rightarrow> splitState \<Rightarrow> splitState \<times> gostring" where
  "step char rest st =
     (let st1 = handleDollar char rest st;
          st2 = handleComment char rest st1
      in
        if \<not> inComment st2 \<and> \<not> inDollarQuote st2 \<and> char = QUOTE1 \<and> inString st2 \<and>
           rest \<noteq> [] \<and> hd rest = QUOTE1
        then (st2\<lparr>buf := buf st2 @ [char, hd rest]\<rparr>, tl rest)
        else
          (let st3 = (if \<not> inComment st2 \<and> \<not> inDollarQuote st2 \<and> char = QUOTE1
                      then st2\<lparr>inString := \<not> inString st2\<rparr> else st2)
           in
             if char = SEMICOLON \<and> \<not> inString st3 \<and> \<not> inComment st3 \<and> \<not> inDollarQuote st3
             then (emit st3, rest)
             else (st3\<lparr>buf := buf st3 @ [char]\<rparr>, rest)))"

function splitLoop :: "gostring \<Rightarrow> splitState \<Rightarrow> splitState" where
  "splitLoop [] st = st"
| "splitLoop (char # rest) st = (case step char rest st of (st', rest') \<Rightarrow> splitLoop rest' st')"
  by pat_completeness auto
termination
proof (relation "measure (\<lambda>(rs, st). length rs)", goal_cases)
  case 1
  show ?case by simp
next
  case (2 char rest st st' rest')
  have "length (snd (step char rest st)) \<le> length rest"
    by (simp add: step_def Let_def)
  moreover from 2 have "rest' = snd (step char rest st)" by (metis snd_conv)
  ultimately show ?case by simp
qed

definition splitSQLStatements :: "gostring \<Rightarrow> gostring list" where
  "splitSQLStatements sql =
     (let st = splitLoop sql initState in
      if length (buf st) > 0 then
        (let stmt = TrimSpace (buf st) in
         if stmt \<noteq> [] then statements st @ [stmt] else statements st)
      else statements st)"

section \<open>Errors and validateSQL\<close>

text \<open>
  \<^verbatim>\<open>fmt\<close>'s \<^verbatim>\<open>%d\<close> of a non-negative integer: its decimal digits.
\<close>

fun itoa :: "nat \<Rightarrow> gostring" where
  "itoa n = (if n < 10 then [48 + n] else itoa (n div 10) @ [48 + n mod 10])"

declare itoa.simps [simp del]

text \<open>
  The error values of the package. A database error is known by its text only;
  \<open>StatementFailed\<close> wraps the error of the failing statement with its 1-based index.
\<close>

datatype error =
    SQLEmpty
  | DangerousOperation gostring
  | DriverError gostring
  | StatementFailed nat error

fun errorText :: "error \<Rightarrow> gostring" where
  "errorText SQLEmpty = runes ''SQL cannot be empty''"
| "errorText (DangerousOperation danger) = runes ''dangerous operation detected: '' @ danger"
| "errorText (DriverError t) = t"
| "errorText (StatementFailed n err) =
     runes ''failed to execute statement '' @ itoa n @ runes '': '' @ errorText err"

definition dangerous :: "gostring list" where
  "dangerous = [runes ''DROP DATABASE'', runes ''DROP SCHEMA'', runes ''TRUNCATE DATABASE'']"

text \<open>The loop over the denylist: the first phrase the uppercased script contains.\<close>

fun firstDanger :: "gostring \<Rightarrow> gostring list \<Rightarrow> error option" where
  "firstDanger upperSQL [] = None"
| "firstDanger upperSQL (danger # ds) =
     (if Contains upperSQL danger then Some (DangerousOperation danger)
      else firstDanger upperSQL ds)"

text \<open>\<open>None\<close> is the \<^verbatim>\<open>nil\<close> error: the script passes.\<close>

definition validateSQL :: "(rune \<Rightarrow> rune) \<Rightarrow> gostring \<Rightarrow> error option" where
  "validateSQL up sql0 =
     (let sql = TrimSpace sql0 in
      if sql = [] then Some SQLEmpty
      else firstDanger (ToUpper up sql) dangerous)"

section \<open>extractTableName\<close>

text \<open>
  The clean-up of the candidate name: the schema prefix (up to the first dot, when that
  dot is not the first rune), a trailing parenthesis, surrounding double quotes.
\<close>

definition stripName :: "gostring \<Rightarrow> gostring" where
  "stripName tableName0 =
     (let idx = Index tableName0 [DOT];
          tableName1 = (if idx > 0 then drop (nat idx + 1) tableName0 else tableName0);
          tableName2 = TrimSuffix tableName1 [LPAREN]
      in Trim tableName2 [QUOTE2])"

text \<open>
  The loop over \<^verbatim>\<open>parts\<close>, from position \<open>i\<close> on: \<open>part\<close> is \<^verbatim>\<open>parts[i]\<close> and \<open>after\<close>
  the parts behind it, so that \<^verbatim>\<open>parts[i+1]\<close> is \<open>hd after\<close>, \<^verbatim>\<open>parts[i+4]\<close> is
  \<open>after ! 3\<close> and \<^verbatim>\<open>i+4 < len(parts)\<close> is \<open>3 < length after\<close>. The empty string is
  returned when the loop ends.
\<close>

fun scanParts :: "(rune \<Rightarrow> rune) \<Rightarrow> gostring list \<Rightarrow> gostring" where
  "scanParts up [] = []"
| "scanParts up (part # after) =
     (if ToUpper up part = runes ''TABLE'' \<and> after \<noteq> [] then
        (let tableName = hd after in
         if ToUpper up tableName = runes ''IF'' then
           (if 3 < length after then stripName (after ! 3) else scanParts up after)
         else stripName tableName)
      else scanParts up after)"

definition extractTableName :: "(rune \<Rightarrow> rune) \<Rightarrow> gostring \<Rightarrow> gostring" where
  "extractTableName up stmt =
     (let upperStmt = ToUpper up (TrimSpace stmt) in
      if \<not> HasPrefix upperStmt (runes ''CREATE TABLE'') then []
      else scanParts up (Fields stmt))"

section \<open>The database\<close>

text \<open>
  The database behind \<^verbatim>\<open>database/sql\<close> is no part of the repository. It is an abstract
  transactional store: \<open>committed\<close> are the statements whose effects are durable,
  \<open>pending\<close> the statements executed in the open transaction (\<open>None\<close> when no transaction
  is open), and \<open>calls\<close> records every call the runner makes. What the database answers
  is the environment \<open>env\<close>: whether \<^verbatim>\<open>Begin\<close> and \<^verbatim>\<open>Commit\<close> fail, and for a
  statement, given the statements already executed in the transaction, its error or the
  number \<^verbatim>\<open>RowsAffected\<close> reports. \<open>elapsed\<close> is what \<^verbatim>\<open>time.Since(startTime)\<close> reads.
  A commit that fails leaves nothing durable. Go's \<^verbatim>\<open>int\<close> is taken as 64 bits wide.
\<close>

datatype dbcall = Begin | Exec gostring | Commit | Rollback

record database =
  committed :: "gostring list"
  pending :: "gostring list option"
  calls :: "dbcall list"

record env =
  beginErr :: "error option"
  execRes :: "gostring list \<Rightarrow> gostring \<Rightarrow> error + 64 word"
  commitErr :: "gostring list \<Rightarrow> error option"
  elapsed :: int

definition history :: "database \<Rightarrow> gostring list" where
  "history db = (case pending db of None \<Rightarrow> [] | Some p \<Rightarrow> p)"

definition db_Begin :: "env \<Rightarrow> database \<Rightarrow> error option \<times> database" where
  "db_Begin e db =
     (case beginErr e of
        Some err \<Rightarrow> (Some err, db\<lparr>calls := calls db @ [Begin]\<rparr>)
      | None \<Rightarrow> (None, db\<lparr>pending := Some [], calls := calls db @ [Begin]\<rparr>))"

definition tx_Exec :: "env \<Rightarrow> gostring \<Rightarrow> database \<Rightarrow> (error + 64 word) \<times> database" where
  "tx_Exec e stmt db =
     (case execRes e (history db) stmt of
        Inl err \<Rightarrow> (Inl err, db\<lparr>calls := calls db @ [Exec stmt]\<rparr>)
      | Inr rows \<Rightarrow>
          (Inr rows, db\<lparr>pending := Some (history db @ [stmt]), calls := calls db @ [Exec stmt]\<rparr>))"

definition tx_Commit :: "env \<Rightarrow> database \<Rightarrow> error option \<times> database" where
  "tx_Commit e db =
     (case commitErr e (history db) of
        Some err \<Rightarrow> (Some err, db\<lparr>pending := None, calls := calls db @ [Commit]\<rparr>)
      | None \<Rightarrow>
          (None, db\<lparr>committed := committed db @ history db, pending := None,
                    calls := calls db @ [Commit]\<rparr>))"

definition tx_Rollback :: "database \<Rightarrow> database" where
  "tx_Rollback db = db\<lparr>pending := None, calls := calls db @ [Rollback]\<rparr>"

section \<open>ApplyMigration\<close>

record MigrationResult =
  Success :: bool
  TablesCreated :: "gostring list"
  RowsInserted :: "64 word"
  ExecutionTime :: int
  Error :: gostring
  StatementsRun :: nat

text \<open>The helper \<^verbatim>\<open>min\<close> of the source.\<close>

definition min_go :: "nat \<Rightarrow> nat \<Rightarrow> nat" where
  "min_go a b = (if a < b then a else b)"

text \<open>
  \<^verbatim>\<open>len(stmt)\<close> counts the bytes of the UTF-8 encoding, and \<^verbatim>\<open>stmt[:n]\<close> cuts at a byte
  position. \<open>RuneLen\<close> is the width of a code point in UTF-8. A cut inside a rune leaves
  bytes that are no rune: ranging over them yields one \<open>RuneError\<close> each.
\<close>

definition RuneLen :: "rune \<Rightarrow> nat" where
  "RuneLen r = (if r < 128 then 1 else if r < 2048 then 2 else if r < 65536 then 3 else 4)"

definition len :: "gostring \<Rightarrow> nat" where
  "len s = sum_list (map RuneLen s)"

fun sliceTo :: "nat \<Rightarrow> gostring \<Rightarrow> gostring" where
  "sliceTo n [] = []"
| "sliceTo n (r # rs) =
     (if RuneLen r \<le> n then r # sliceTo (n - RuneLen r) rs else replicate n RuneError)"

text \<open>
  The bookkeeping after a statement that executed: the rows of an INSERT are added, the
  name of a created table is appended. The pair is (\<^verbatim>\<open>tablesCreated\<close>,
  \<^verbatim>\<open>totalRowsInserted\<close>).
\<close>

definition track :: "(rune \<Rightarrow> rune) \<Rightarrow> gostring \<Rightarrow> 64 word \<Rightarrow> gostring list \<times> 64 word
    \<Rightarrow> gostring list \<times> 64 word" where
  "track up stmt rows acc =
     (let totalRowsInserted =
            (if HasPrefix (ToUpper up stmt) (runes ''INSERT'') then snd acc + rows else snd acc);
          tablesCreated =
            (if HasPrefix (ToUpper up stmt) (runes ''CREATE TABLE'') then
               (let tableName = extractTableName up stmt in
                if tableName \<noteq> [] then fst acc @ [tableName] else fst acc)
             else fst acc)
      in (tablesCreated, totalRowsInserted))"

text \<open>
  The loop over the statements, \<open>i\<close> the index of the first one left. It ends with
  \<open>Inl\<close>, the text of \<^verbatim>\<open>result.Error\<close> and the error returned, at the first statement
  that fails, or with \<open>Inr\<close> and the two local tallies.
\<close>

fun execLoop :: "(rune \<Rightarrow> rune) \<Rightarrow> env \<Rightarrow> nat \<Rightarrow> gostring list \<Rightarrow> gostring list \<times> 64 word
    \<Rightarrow> database \<Rightarrow> ((gostring \<times> error) + (gostring list \<times> 64 word)) \<times> database" where
  "execLoop up e i [] acc db = (Inr acc, db)"
| "execLoop up e i (s # ss) acc db =
     (let stmt = TrimSpace s in
      if stmt = [] then execLoop up e (i + 1) ss acc db
      else
        (case tx_Exec e stmt db of
           (Inl err, db') \<Rightarrow>
             (Inl (runes ''statement '' @ itoa (i + 1) @ runes '' failed: '' @ errorText err @
                   [NEWLINE] @ runes ''Statement: '' @ sliceTo (min_go (len stmt) 100) stmt,
                   StatementFailed (i + 1) err), db')
         | (Inr rows, db') \<Rightarrow> execLoop up e (i + 1) ss (track up stmt rows acc) db'))"

text \<open>
  \<^verbatim>\<open>ApplyMigration\<close> returns the result and the error; the database after the call is the
  third component. The deferred function runs on every return behind \<^verbatim>\<open>Begin\<close> and
  rolls back when \<^verbatim>\<open>result.Success\<close> is false.
\<close>

definition ApplyMigration :: "(rune \<Rightarrow> rune) \<Rightarrow> env \<Rightarrow> gostring \<Rightarrow> database
    \<Rightarrow> MigrationResult \<times> error option \<times> database" where
  "ApplyMigration up e sqlScript db =
     (let result = \<lparr>Success = False, TablesCreated = [], RowsInserted = 0, ExecutionTime = 0,
                     Error = [], StatementsRun = 0\<rparr> in
      case validateSQL up sqlScript of
        Some err \<Rightarrow>
          (result\<lparr>Error := runes ''SQL validation failed: '' @ errorText err\<rparr>, Some err, db)
      | None \<Rightarrow>
          (let statements = splitSQLStatements sqlScript;
               result = result\<lparr>StatementsRun := length statements\<rparr> in
           case db_Begin e db of
             (Some err, db1) \<Rightarrow>
               (result\<lparr>Error := runes ''failed to begin transaction: '' @ errorText err\<rparr>,
                Some err, db1)
           | (None, db1) \<Rightarrow>
               (case execLoop up e 0 statements ([], 0) db1 of
                  (Inl (msg, err), db2) \<Rightarrow> (result\<lparr>Error := msg\<rparr>, Some err, tx_Rollback db2)
                | (Inr (tablesCreated, totalRowsInserted), db2) \<Rightarrow>
                    (case tx_Commit e db2 of
                       (Some err, db3) \<Rightarrow>
                         (result\<lparr>Error := runes ''failed to commit transaction: '' @ errorText err\<rparr>,
                          Some err, tx_Rollback db3)
                     | (None, db3) \<Rightarrow>
                         (result\<lparr>Success := True, TablesCreated := tablesCreated,
                                 RowsInserted := totalRowsInserted,
                                 ExecutionTime := elapsed e\<rparr>, None, db3)))))"

section \<open>Vocabulary of the properties\<close>

text \<open>A statement as the splitter emits it: not empty, and trimming changes nothing.\<close>

definition wellTrimmed :: "gostring \<Rightarrow> bool" where
  "wellTrimmed s \<longleftrightarrow> s \<noteq> [] \<and> TrimSpace s = s"

text \<open>
  The splitter has seen white space and separators only: nothing emitted, a buffer of
  white space, no mode flag set.
\<close>

definition blank :: "splitState \<Rightarrow> bool" where
  "blank st \<longleftrightarrow> statements st = [] \<and> (\<forall>r \<in> set (buf st). isSpace r) \<and>
     \<not> inString st \<and> \<not> inComment st \<and> \<not> inDollarQuote st"

text \<open>
  Every statement of the list executes without error, when \<open>h\<close> are the statements
  already executed in the transaction.
\<close>

fun allSucceed :: "env \<Rightarrow> gostring list \<Rightarrow> gostring list \<Rightarrow> bool" where
  "allSucceed e h [] = True"
| "allSucceed e h (s # ss) =
     (case execRes e h s of Inl err \<Rightarrow> False | Inr rows \<Rightarrow> allSucceed e (h @ [s]) ss)"

text \<open>The two tallies after the statements that executed, each with the rows it reported.\<close>

fun tally :: "(rune \<Rightarrow> rune) \<Rightarrow> env \<Rightarrow> gostring list \<Rightarrow> gostring list \<Rightarrow> gostring list \<times> 64 word
    \<Rightarrow> gostring list \<times> 64 word" where
  "tally up e h [] acc = acc"
| "tally up e h (s # ss) acc =
     (case execRes e h s of Inl err \<Rightarrow> acc
      | Inr rows \<Rightarrow> tally up e (h @ [s]) ss (track up s rows acc))"

text \<open>The sum of the rows reported by the statements that begin with INSERT.\<close>

fun insertedRows :: "(rune \<Rightarrow> rune) \<Rightarrow> env \<Rightarrow> gostring list \<Rightarrow> gostring list \<Rightarrow> 64 word" where
  "insertedRows up e h [] = 0"
| "insertedRows up e h (s # ss) =
     (case execRes e h s of Inl err \<Rightarrow> 0
      | Inr rows \<Rightarrow> (if HasPrefix (ToUpper up s) (runes ''INSERT'') then rows else 0) +
                    insertedRows up e (h @ [s]) ss)"

text \<open>The text of \<^verbatim>\<open>result.Error\<close> for statement \<open>k\<close>, and the result before any field is set.\<close>

definition failureText :: "nat \<Rightarrow> error \<Rightarrow> gostring \<Rightarrow> gostring" where
  "failureText k err stmt =
     runes ''statement '' @ itoa k @ runes '' failed: '' @ errorText err @ [NEWLINE] @
     runes ''Statement: '' @ sliceTo (min_go (len stmt) 100) stmt"

definition emptyResult :: MigrationResult where
  "emptyResult = \<lparr>Success = False, TablesCreated = [], RowsInserted = 0, ExecutionTime = 0,
                   Error = [], StatementsRun = 0\<rparr>"

text \<open>The scripts and splitter states of the examples.\<close>

definition functionScript :: gostring where
  "functionScript =
     runes ''CREATE FUNCTION f() RETURNS void AS $$ BEGIN RAISE NOTICE 'x;y'; END; $$ LANGUAGE plpgsql;''"


definition commentScript :: gostring where
  "commentScript = runes ''-- note'' @ [NEWLINE] @ runes '' ; ''"


text \<open>
  The script of the specification's example with its three statements, an empty database,
  and databases that accept every statement, that refuse the \<open>k\<close>-th statement of a
  transaction, and that refuse to commit.
\<close>

definition usersScript :: gostring where
  "usersScript = runes ''CREATE TABLE IF NOT EXISTS users (id int); INSERT INTO users VALUES (1); INSERT INTO users VALUES (2);''"

definition createUsers :: gostring where
  "createUsers = runes ''CREATE TABLE IF NOT EXISTS users (id int)''"

definition insertOne :: gostring where
  "insertOne = runes ''INSERT INTO users VALUES (1)''"

definition insertTwo :: gostring where
  "insertTwo = runes ''INSERT INTO users VALUES (2)''"

definition db0 :: database where
  "db0 = \<lparr>committed = [], pending = None, calls = []\<rparr>"

definition okEnv :: env where
  "okEnv = \<lparr>beginErr = None, execRes = (\<lambda>h s. Inr 1), commitErr = (\<lambda>h. None), elapsed = 5\<rparr>"

definition failAt :: "nat \<Rightarrow> env" where
  "failAt k = \<lparr>beginErr = None,
     execRes = (\<lambda>h s. if length h + 1 = k then Inl (DriverError (runes ''no such table'')) else Inr 1),
     commitErr = (\<lambda>h. None), elapsed = 5\<rparr>"

definition commitFails :: env where
  "commitFails = \<lparr>beginErr = None, execRes = (\<lambda>h s. Inr 1),
     commitErr = (\<lambda>h. Some (DriverError (runes ''commit refused''))), elapsed = 5\<rparr>"

text \<open>
  The extraction in the words of the specification, for comparison with the source: skip
  the two keywords, skip three tokens more when the next token is IF, take the token that
  follows, strip the prefix up to and including the last dot, a trailing parenthesis and
  surrounding double quotes.
\<close>

definition spec_afterLastDot :: "gostring \<Rightarrow> gostring" where
  "spec_afterLastDot token = rev (takeWhile (\<lambda>r. r \<noteq> DOT) (rev token))"

definition spec_tableName :: "(rune \<Rightarrow> rune) \<Rightarrow> gostring \<Rightarrow> gostring" where
  "spec_tableName up stmt =
     (let toks = drop 2 (Fields stmt);
          toks' = (if toks \<noteq> [] \<and> ToUpper up (hd toks) = runes ''IF'' then drop 3 toks else toks)
      in if toks' = [] then []
         else Trim (TrimSuffix (spec_afterLastDot (hd toks')) [LPAREN]) [QUOTE2])"

text \<open>A statement that creates a table under a name of three parts.\<close>

definition qualifiedCreate :: gostring where
  "qualifiedCreate = runes ''CREATE TABLE app.public.users (id int)''"

section \<open>The splitter, step by step\<close>

lemma TrimSpace_idem: "TrimSpace (TrimSpace s) = TrimSpace s"
proof -
  define t where "t = dropWhile isSpace s"
  define u where "u = rev (dropWhile isSpace (rev t))"
  have ru: "dropWhile isSpace (rev u) = rev u"
    by (simp add: u_def)
  have pre: "\<exists>w. t = u @ w"
    unfolding u_def by (metis rev_append rev_rev_ident takeWhile_dropWhile_id)
  have "u = [] \<or> \<not> isSpace (hd u)"
  proof (cases "u = []")
    case False
    with pre obtain w where "t = u @ w" by blast
    with False have "hd u = hd t" "t \<noteq> []" by auto
    then show ?thesis unfolding t_def using hd_dropWhile by metis
  qed simp
  then have "dropWhile isSpace u = u"
    by (cases u) auto
  then show ?thesis
    using ru by (simp add: TrimSpace_def t_def [symmetric] u_def [symmetric])
qed

lemma TrimSpace_Nil_iff: "TrimSpace s = [] \<longleftrightarrow> (\<forall>r \<in> set s. isSpace r)"
proof -
  define t where "t = dropWhile isSpace s"
  have "t = [] \<or> \<not> isSpace (hd t)"
    unfolding t_def using hd_dropWhile by blast
  then have "(\<forall>x \<in> set t. isSpace x) \<longleftrightarrow> t = []"
    by (cases t) auto
  moreover have "t = [] \<longleftrightarrow> (\<forall>r \<in> set s. isSpace r)"
    unfolding t_def by (rule dropWhile_eq_Nil_conv)
  moreover have "TrimSpace s = [] \<longleftrightarrow> (\<forall>x \<in> set t. isSpace x)"
    by (simp add: TrimSpace_def t_def dropWhile_eq_Nil_conv)
  ultimately show ?thesis by blast
qed

lemma step_semicolon:
  "step SEMICOLON rest st =
     (if \<not> inString st \<and> \<not> inComment st \<and> \<not> inDollarQuote st then (emit st, rest)
      else (st\<lparr>buf := buf st @ [SEMICOLON]\<rparr>, rest))"
  by (simp add: step_def handleDollar_def handleComment_def)

lemma step_other_statements:
  "char \<noteq> SEMICOLON \<Longrightarrow> statements (fst (step char rest st)) = statements st"
  by (simp add: step_def handleDollar_def handleComment_def Let_def split: list.splits)



lemma step_in_dollar:
  "inDollarQuote (handleDollar char rest st) \<Longrightarrow>
   step char rest st =
     ((handleDollar char rest st)\<lparr>buf := buf (handleDollar char rest st) @ [char]\<rparr>, rest)"
  by (simp add: step_def handleComment_def Let_def)

lemma handleDollar_other: "char \<noteq> DOLLAR \<Longrightarrow> handleDollar char rest st = st"
  by (simp add: handleDollar_def)


lemma splitLoop_in_dollar:
  "inDollarQuote st \<Longrightarrow> DOLLAR \<notin> set body \<Longrightarrow>
   splitLoop (body @ rest) st = splitLoop rest (st\<lparr>buf := buf st @ body\<rparr>)"
proof (induction body arbitrary: st)
  case Nil
  then show ?case by simp
next
  case (Cons c body)
  then show ?case by (simp add: step_in_dollar handleDollar_other)
qed

lemma step_in_comment:
  "inComment st \<Longrightarrow> char \<noteq> NEWLINE \<Longrightarrow> step char rest st = (st\<lparr>buf := buf st @ [char]\<rparr>, rest)"
  by (simp add: step_def handleDollar_def handleComment_def)

lemma splitLoop_in_comment:
  "inComment st \<Longrightarrow> NEWLINE \<notin> set body \<Longrightarrow>
   splitLoop (body @ rest) st = splitLoop rest (st\<lparr>buf := buf st @ body\<rparr>)"
proof (induction body arbitrary: st)
  case Nil
  then show ?case by simp
next
  case (Cons c body)
  then show ?case by (simp add: step_in_comment)
qed

lemma handleDollar_tag:
  assumes "\<not> inString st" "\<not> inComment st" "\<forall>r \<in> set body. isTagRune r"
  shows "handleDollar DOLLAR (body @ DOLLAR # after) st =
     (if \<not> inDollarQuote st then st\<lparr>inDollarQuote := True, dollarQuoteTag := DOLLAR # body @ [DOLLAR]\<rparr>
      else if DOLLAR # body @ [DOLLAR] = dollarQuoteTag st
        then st\<lparr>inDollarQuote := False, dollarQuoteTag := []\<rparr>
      else st)"
proof -
  have nt: "\<not> isTagRune DOLLAR" by (simp add: isTagRune_def)
  have "dropWhile isTagRune (body @ DOLLAR # after) = DOLLAR # after"
    using assms(3) nt by (simp add: dropWhile_append2)
  moreover have "takeWhile isTagRune (body @ DOLLAR # after) = body"
    using assms(3) nt by (simp add: takeWhile_append2)
  ultimately show ?thesis using assms(1,2)
    by (simp add: handleDollar_def)
qed

lemma handleDollar_no_tag:
  assumes "inString st \<or> inComment st \<or> dropWhile isTagRune rest = [] \<or>
           hd (dropWhile isTagRune rest) \<noteq> DOLLAR"
  shows "handleDollar char rest st = st"
proof (cases "dropWhile isTagRune rest")
  case Nil
  show ?thesis unfolding handleDollar_def Nil by simp
next
  case (Cons d ds)
  with assms have "inString st \<or> inComment st \<or> d \<noteq> DOLLAR" by simp
  then show ?thesis unfolding handleDollar_def Cons by auto
qed

lemma emit_statements:
  "statements (emit st) =
     (if TrimSpace (buf st) = [] then statements st else statements st @ [TrimSpace (buf st)])"
  by (simp add: emit_def Let_def)

lemma step_statements:
  "statements (fst (step char rest st)) = statements st \<or>
   (char = SEMICOLON \<and> TrimSpace (buf st) \<noteq> [] \<and>
    statements (fst (step char rest st)) = statements st @ [TrimSpace (buf st)])"
proof (cases "char = SEMICOLON")
  case True
  then show ?thesis by (simp add: step_semicolon emit_statements)
next
  case False
  then show ?thesis by (simp add: step_other_statements)
qed

lemma splitLoop_wellTrimmed:
  "list_all wellTrimmed (statements st) \<Longrightarrow> list_all wellTrimmed (statements (splitLoop rs st))"
proof (induction rs st rule: splitLoop.induct)
  case (1 st)
  then show ?case by simp
next
  case (2 char rest st)
  obtain st' rest' where s: "step char rest st = (st', rest')" by (cases "step char rest st")
  have "TrimSpace (buf st) \<noteq> [] \<Longrightarrow> wellTrimmed (TrimSpace (buf st))"
    by (simp add: wellTrimmed_def TrimSpace_idem)
  then have "list_all wellTrimmed (statements st')"
    using step_statements [of char rest st] "2.prems" s by auto
  with 2 s show ?case by simp
qed

lemma splitSQLStatements_wellTrimmed: "list_all wellTrimmed (splitSQLStatements sql)"
proof -
  have "list_all wellTrimmed (statements (splitLoop sql initState))"
    by (rule splitLoop_wellTrimmed) (simp add: initState_def)
  then show ?thesis
    by (simp add: splitSQLStatements_def Let_def wellTrimmed_def TrimSpace_idem)
qed

lemma isSpace_not_special: "isSpace r \<Longrightarrow> r \<noteq> DOLLAR \<and> r \<noteq> DASH \<and> r \<noteq> QUOTE1 \<and> r \<noteq> SEMICOLON"
  by (auto simp: isSpace_def)

lemma step_blank:
  assumes "blank st" "isSpace char \<or> char = SEMICOLON"
  shows "blank (fst (step char rest st)) \<and> snd (step char rest st) = rest"
proof (cases "char = SEMICOLON")
  case True
  with assms(1) show ?thesis
    by (simp add: step_semicolon blank_def emit_def Let_def TrimSpace_Nil_iff)
next
  case False
  with assms(2) have sp: "isSpace char" by simp
  then show ?thesis using assms(1) isSpace_not_special [OF sp]
    by (simp add: step_def handleDollar_def handleComment_def blank_def)
qed

lemma splitLoop_blank:
  "blank st \<Longrightarrow> \<forall>r \<in> set rs. isSpace r \<or> r = SEMICOLON \<Longrightarrow> blank (splitLoop rs st)"
proof (induction rs arbitrary: st)
  case Nil
  then show ?case by simp
next
  case (Cons c rs)
  have "blank (fst (step c rs st))" "snd (step c rs st) = rs"
    using step_blank [of st c rs] Cons.prems by auto
  then show ?case using Cons by (simp add: case_prod_beta)
qed

lemma splitSQLStatements_blank:
  assumes "\<forall>r \<in> set sql. isSpace r \<or> r = SEMICOLON"
  shows "splitSQLStatements sql = []"
proof -
  have "blank (splitLoop sql initState)"
    by (rule splitLoop_blank) (simp_all add: blank_def initState_def assms)
  then show ?thesis
    by (simp add: splitSQLStatements_def Let_def blank_def TrimSpace_Nil_iff)
qed

lemma step_count:
  "length (statements (fst (step char rest st))) + count_list (snd (step char rest st)) SEMICOLON
     \<le> length (statements st) + count_list (char # rest) SEMICOLON"
proof -
  have "count_list (snd (step char rest st)) SEMICOLON \<le> count_list rest SEMICOLON"
    by (cases rest) (simp_all add: step_def Let_def)
  moreover have "length (statements (fst (step char rest st)))
      \<le> length (statements st) + (if char = SEMICOLON then 1 else 0)"
    using step_statements [of char rest st] by auto
  ultimately show ?thesis by (cases "char = SEMICOLON") simp_all
qed

lemma splitLoop_count:
  "length (statements (splitLoop rs st)) + (if TrimSpace (buf (splitLoop rs st)) = [] then 0 else 1)
     \<le> length (statements st) + count_list rs SEMICOLON + 1"
proof (induction rs st rule: splitLoop.induct)
  case (1 st)
  then show ?case by simp
next
  case (2 char rest st)
  obtain st' rest' where s: "step char rest st = (st', rest')" by (cases "step char rest st")
  have "length (statements st') + count_list rest' SEMICOLON
     \<le> length (statements st) + count_list (char # rest) SEMICOLON"
    using step_count [of char rest st] s by simp
  moreover have "length (statements (splitLoop rest' st')) + (if TrimSpace (buf (splitLoop rest' st')) = [] then 0 else 1)
     \<le> length (statements st') + count_list rest' SEMICOLON + 1"
    using 2 s by simp
  ultimately show ?case using s by simp
qed

lemma splitSQLStatements_count:
  "length (splitSQLStatements sql) \<le> count_list sql SEMICOLON + 1"
  using splitLoop_count [of sql initState]
  by (simp add: splitSQLStatements_def Let_def initState_def split: if_splits)

lemma splitSQLStatements_final:
  "splitSQLStatements sql =
     statements (splitLoop sql initState) @
     (if TrimSpace (buf (splitLoop sql initState)) = [] then []
      else [TrimSpace (buf (splitLoop sql initState))])"
  by (simp add: splitSQLStatements_def Let_def TrimSpace_def)


lemma isTagRune_plain:
  "isTagRune r \<Longrightarrow> r \<noteq> DOLLAR \<and> r \<noteq> DASH \<and> r \<noteq> QUOTE1 \<and> r \<noteq> SEMICOLON"
  by (auto simp: isTagRune_def)

lemma step_plain:
  "\<not> inString st \<Longrightarrow> \<not> inComment st \<Longrightarrow> \<not> inDollarQuote st \<Longrightarrow>
   char \<noteq> DOLLAR \<Longrightarrow> char \<noteq> DASH \<Longrightarrow> char \<noteq> QUOTE1 \<Longrightarrow> char \<noteq> SEMICOLON \<Longrightarrow>
   step char rest st = (st\<lparr>buf := buf st @ [char]\<rparr>, rest)"
  by (simp add: step_def handleDollar_def handleComment_def)

lemma splitLoop_tag_runes:
  "\<not> inString st \<Longrightarrow> \<not> inComment st \<Longrightarrow> \<not> inDollarQuote st \<Longrightarrow>
   \<forall>r \<in> set t. isTagRune r \<Longrightarrow>
   splitLoop (t @ rest) st = splitLoop rest (st\<lparr>buf := buf st @ t\<rparr>)"
proof (induction t arbitrary: st)
  case Nil
  then show ?case by simp
next
  case (Cons c t)
  from Cons.prems(4) have "isTagRune c" by simp
  from isTagRune_plain [OF this] Cons show ?case by (simp add: step_plain)
qed

lemma handleDollar_other_tag:
  assumes "inDollarQuote st" "dollarQuoteTag st = DOLLAR # t @ [DOLLAR]"
    and "DOLLAR \<notin> set body" "body \<noteq> t"
  shows "handleDollar DOLLAR (body @ DOLLAR # rest) st = st"
proof (cases "\<forall>r \<in> set body. isTagRune r")
  case True
  have nt: "\<not> isTagRune DOLLAR" by (simp add: isTagRune_def)
  have "dropWhile isTagRune (body @ DOLLAR # rest) = DOLLAR # rest"
    using True nt by (simp add: dropWhile_append2)
  moreover have "takeWhile isTagRune (body @ DOLLAR # rest) = body"
    using True nt by (simp add: takeWhile_append2)
  ultimately show ?thesis using assms by (simp add: handleDollar_def)
next
  case False
  then have "\<exists>x \<in> set body. \<not> isTagRune x" by blast
  from split_list_first_prop [OF this]
  obtain p x q where s: "body = p @ x # q" "\<forall>r \<in> set p. \<not> \<not> isTagRune r" "\<not> isTagRune x"
    by blast
  then have "dropWhile isTagRune (body @ DOLLAR # rest) = x # q @ DOLLAR # rest"
    by (simp add: dropWhile_append2)
  moreover from s assms(3) have "x \<noteq> DOLLAR" by auto
  ultimately show ?thesis by (simp add: handleDollar_def)
qed

lemma splitLoop_dollar_block:
  assumes n: "\<not> inString st" "\<not> inComment st" "\<not> inDollarQuote st"
    and t: "\<forall>r \<in> set t. isTagRune r"
    and b: "DOLLAR \<notin> set body" "body \<noteq> t"
    and r: "dropWhile isTagRune rest = [] \<or> hd (dropWhile isTagRune rest) \<noteq> DOLLAR"
  shows "splitLoop (DOLLAR # t @ DOLLAR # body @ DOLLAR # t @ DOLLAR # rest) st =
         splitLoop rest
           (st\<lparr>buf := buf st @ DOLLAR # t @ DOLLAR # body @ DOLLAR # t @ [DOLLAR],
               inDollarQuote := False, dollarQuoteTag := []\<rparr>)"
proof -
  define R3 where "R3 = DOLLAR # t @ DOLLAR # rest"
  define R2 where "R2 = body @ R3"
  define st1 where "st1 = st\<lparr>inDollarQuote := True, dollarQuoteTag := DOLLAR # t @ [DOLLAR],
    buf := buf st @ [DOLLAR]\<rparr>"
  define st2 where "st2 = st1\<lparr>buf := buf st1 @ t\<rparr>"
  define st3 where "st3 = st2\<lparr>buf := buf st2 @ [DOLLAR]\<rparr>"
  define st4 where "st4 = st3\<lparr>buf := buf st3 @ body\<rparr>"
  define st5 where "st5 = st4\<lparr>inDollarQuote := False, dollarQuoteTag := [], buf := buf st4 @ [DOLLAR]\<rparr>"
  define st6 where "st6 = st5\<lparr>buf := buf st5 @ t\<rparr>"
  have dt: "DOLLAR \<notin> set t" using t by (auto simp: isTagRune_def)
  have 1: "step DOLLAR (t @ DOLLAR # R2) st = (st1, t @ DOLLAR # R2)"
    using handleDollar_tag [OF n(1,2) t, of "R2"] n(3) step_in_dollar [of DOLLAR "t @ DOLLAR # R2" st]
    by (simp add: st1_def)
  have 2: "splitLoop (t @ DOLLAR # R2) st1 = splitLoop (DOLLAR # R2) st2"
    unfolding st2_def by (rule splitLoop_in_dollar) (simp_all add: st1_def dt)
  have "handleDollar DOLLAR R2 st2 = st2"
    unfolding R2_def R3_def
    by (rule handleDollar_other_tag [where t = t]) (simp_all add: st2_def st1_def b)
  then have 3: "step DOLLAR R2 st2 = (st3, R2)"
    using step_in_dollar [of DOLLAR R2 st2] by (simp add: st3_def st2_def st1_def)
  have 4: "splitLoop (body @ R3) st3 = splitLoop R3 st4"
    unfolding st4_def by (rule splitLoop_in_dollar) (simp_all add: st3_def st2_def st1_def b)
  have "handleDollar DOLLAR (t @ DOLLAR # rest) st4 =
      st4\<lparr>inDollarQuote := False, dollarQuoteTag := []\<rparr>"
    using handleDollar_tag [of st4 t rest] n t by (simp add: st4_def st3_def st2_def st1_def)
  then have 5: "step DOLLAR (t @ DOLLAR # rest) st4 = (st5, t @ DOLLAR # rest)"
    using n by (simp add: step_def handleComment_def st5_def st4_def st3_def st2_def st1_def)
  have 6: "splitLoop (t @ DOLLAR # rest) st5 = splitLoop (DOLLAR # rest) st6"
    unfolding st6_def
    by (rule splitLoop_tag_runes) (simp_all add: st5_def st4_def st3_def st2_def st1_def n t)
  have "handleDollar DOLLAR rest st6 = st6"
    using handleDollar_no_tag [of st6 rest DOLLAR] r by blast
  then have 7: "step DOLLAR rest st6 = (st6\<lparr>buf := buf st6 @ [DOLLAR]\<rparr>, rest)"
    using n by (simp add: step_def handleComment_def st6_def st5_def st4_def st3_def st2_def st1_def)
  have "splitLoop (DOLLAR # t @ DOLLAR # body @ DOLLAR # t @ DOLLAR # rest) st =
        splitLoop rest (st6\<lparr>buf := buf st6 @ [DOLLAR]\<rparr>)"
    using 1 2 3 4 5 6 7 by (simp add: R2_def R3_def)
  moreover have "st6\<lparr>buf := buf st6 @ [DOLLAR]\<rparr> =
      st\<lparr>buf := buf st @ DOLLAR # t @ DOLLAR # body @ DOLLAR # t @ [DOLLAR],
         inDollarQuote := False, dollarQuoteTag := []\<rparr>"
    by (cases st) (simp add: st6_def st5_def st4_def st3_def st2_def st1_def)
  ultimately show ?thesis by (simp only:)
qed


section \<open>The statement loop and the paths of ApplyMigration\<close>

lemma execLoop_success:
  "pending db = Some h \<Longrightarrow> list_all wellTrimmed ss \<Longrightarrow> allSucceed e h ss \<Longrightarrow>
   execLoop up e i ss acc db =
     (Inr (tally up e h ss acc), db\<lparr>pending := Some (h @ ss), calls := calls db @ map Exec ss\<rparr>)"
proof (induction ss arbitrary: db h i acc)
  case Nil
  then show ?case by simp
next
  case (Cons s ss)
  from Cons.prems(2) have s: "TrimSpace s = s" "s \<noteq> []" by (simp_all add: wellTrimmed_def)
  from Cons.prems(3) obtain rows where r: "execRes e h s = Inr rows" and rest: "allSucceed e (h @ [s]) ss"
    by (auto split: sum.splits)
  define db' where "db' = db\<lparr>pending := Some (h @ [s]), calls := calls db @ [Exec s]\<rparr>"
  have x: "tx_Exec e s db = (Inr rows, db')"
    using Cons.prems(1) r by (simp add: tx_Exec_def history_def db'_def)
  have "pending db' = Some (h @ [s])" by (simp add: db'_def)
  from Cons.IH [OF this _ rest, of "i + 1" "track up s rows acc"] Cons.prems(2)
  have "execLoop up e (i + 1) ss (track up s rows acc) db' =
     (Inr (tally up e (h @ [s]) ss (track up s rows acc)),
      db'\<lparr>pending := Some ((h @ [s]) @ ss), calls := calls db' @ map Exec ss\<rparr>)"
    by simp
  then show ?case using s x r by (simp add: db'_def)
qed

lemma execLoop_failure:
  "pending db = Some h \<Longrightarrow> list_all wellTrimmed (pre @ s # post) \<Longrightarrow> allSucceed e h pre \<Longrightarrow>
   execRes e (h @ pre) s = Inl err \<Longrightarrow>
   execLoop up e i (pre @ s # post) acc db =
     (Inl (failureText (i + length pre + 1) err s, StatementFailed (i + length pre + 1) err),
      db\<lparr>pending := Some (h @ pre), calls := calls db @ map Exec pre @ [Exec s]\<rparr>)"
proof (induction pre arbitrary: db h i acc)
  case Nil
  from Nil.prems(2) have s: "TrimSpace s = s" "s \<noteq> []" by (simp_all add: wellTrimmed_def)
  have "tx_Exec e s db = (Inl err, db\<lparr>calls := calls db @ [Exec s]\<rparr>)"
    using Nil.prems by (simp add: tx_Exec_def history_def)
  then show ?case using s Nil.prems(1) by (simp add: failureText_def)
next
  case (Cons p pre)
  from Cons.prems(2) have s: "TrimSpace p = p" "p \<noteq> []" by (simp_all add: wellTrimmed_def)
  from Cons.prems(3) obtain rows where r: "execRes e h p = Inr rows" and rest: "allSucceed e (h @ [p]) pre"
    by (auto split: sum.splits)
  define db' where "db' = db\<lparr>pending := Some (h @ [p]), calls := calls db @ [Exec p]\<rparr>"
  have x: "tx_Exec e p db = (Inr rows, db')"
    using Cons.prems(1) r by (simp add: tx_Exec_def history_def db'_def)
  have "pending db' = Some (h @ [p])" by (simp add: db'_def)
  from Cons.IH [OF this _ rest, of "i + 1" "track up p rows acc"] Cons.prems(2,4)
  have "execLoop up e (i + 1) (pre @ s # post) (track up p rows acc) db' =
     (Inl (failureText (i + 1 + length pre + 1) err s, StatementFailed (i + 1 + length pre + 1) err),
      db'\<lparr>pending := Some ((h @ [p]) @ pre), calls := calls db' @ map Exec pre @ [Exec s]\<rparr>)"
    by simp
  then show ?case using s x r by (simp add: db'_def)
qed

lemma allSucceed_or_failure:
  "allSucceed e h ss \<or>
   (\<exists>pre s post err. ss = pre @ s # post \<and> allSucceed e h pre \<and> execRes e (h @ pre) s = Inl err)"
proof (induction ss arbitrary: h)
  case Nil
  then show ?case by simp
next
  case (Cons a ss)
  show ?case
  proof (cases "execRes e h a")
    case (Inl err)
    then have "a # ss = [] @ a # ss \<and> allSucceed e h [] \<and> execRes e (h @ []) a = Inl err" by simp
    then show ?thesis by blast
  next
    case (Inr rows)
    from Cons.IH [of "h @ [a]"] show ?thesis
    proof
      assume "allSucceed e (h @ [a]) ss"
      then show ?thesis using Inr by simp
    next
      assume "\<exists>pre s post err. ss = pre @ s # post \<and> allSucceed e (h @ [a]) pre \<and>
        execRes e ((h @ [a]) @ pre) s = Inl err"
      then obtain pre s post err where "ss = pre @ s # post" "allSucceed e (h @ [a]) pre"
        "execRes e ((h @ [a]) @ pre) s = Inl err" by blast
      then have "a # ss = (a # pre) @ s # post \<and> allSucceed e h (a # pre) \<and>
        execRes e (h @ (a # pre)) s = Inl err" using Inr by simp
      then show ?thesis by blast
    qed
  qed
qed

lemma tally_rows:
  "allSucceed e h ss \<Longrightarrow> snd (tally up e h ss acc) = snd acc + insertedRows up e h ss"
proof (induction ss arbitrary: h acc)
  case Nil
  then show ?case by simp
next
  case (Cons s ss)
  then show ?case by (auto split: sum.splits simp: track_def Let_def)
qed


lemma ApplyMigration_invalid:
  "validateSQL up script = Some err \<Longrightarrow>
   ApplyMigration up e script db =
     (emptyResult\<lparr>Error := runes ''SQL validation failed: '' @ errorText err\<rparr>, Some err, db)"
  by (simp add: ApplyMigration_def emptyResult_def)

lemma ApplyMigration_begin_fails:
  "validateSQL up script = None \<Longrightarrow> beginErr e = Some err \<Longrightarrow>
   ApplyMigration up e script db =
     (emptyResult\<lparr>Error := runes ''failed to begin transaction: '' @ errorText err,
                  StatementsRun := length (splitSQLStatements script)\<rparr>,
      Some err, db\<lparr>calls := calls db @ [Begin]\<rparr>)"
  by (simp add: ApplyMigration_def emptyResult_def db_Begin_def)

lemma ApplyMigration_statement_fails:
  assumes "validateSQL up script = None" "beginErr e = None"
    and "splitSQLStatements script = pre @ s # post"
    and "allSucceed e [] pre" "execRes e pre s = Inl err"
  shows "ApplyMigration up e script db =
     (emptyResult\<lparr>Error := failureText (length pre + 1) err s,
                  StatementsRun := length (splitSQLStatements script)\<rparr>,
      Some (StatementFailed (length pre + 1) err),
      db\<lparr>pending := None, calls := calls db @ Begin # map Exec pre @ [Exec s, Rollback]\<rparr>)"
proof -
  define db1 where "db1 = db\<lparr>pending := Some [], calls := calls db @ [Begin]\<rparr>"
  have b: "db_Begin e db = (None, db1)"
    using assms(2) by (simp add: db_Begin_def db1_def)
  have wt: "list_all wellTrimmed (pre @ s # post)"
    using splitSQLStatements_wellTrimmed [of script] assms(3) by simp
  have p: "pending db1 = Some []" by (simp add: db1_def)
  have "execLoop up e 0 (pre @ s # post) ([], 0) db1 =
     (Inl (failureText (0 + length pre + 1) err s, StatementFailed (0 + length pre + 1) err),
      db1\<lparr>pending := Some ([] @ pre), calls := calls db1 @ map Exec pre @ [Exec s]\<rparr>)"
    using execLoop_failure [OF p wt assms(4)] assms(5) by simp
  then show ?thesis
    using assms(1,3) b
    by (simp add: ApplyMigration_def emptyResult_def tx_Rollback_def db1_def)
qed

lemma ApplyMigration_commit:
  assumes "validateSQL up script = None" "beginErr e = None"
    and "allSucceed e [] (splitSQLStatements script)"
  shows "ApplyMigration up e script db =
     (case commitErr e (splitSQLStatements script) of
        Some err \<Rightarrow>
          (emptyResult\<lparr>Error := runes ''failed to commit transaction: '' @ errorText err,
                       StatementsRun := length (splitSQLStatements script)\<rparr>,
           Some err,
           db\<lparr>pending := None,
              calls := calls db @ Begin # map Exec (splitSQLStatements script) @ [Commit, Rollback]\<rparr>)
      | None \<Rightarrow>
          (\<lparr>Success = True,
            TablesCreated = fst (tally up e [] (splitSQLStatements script) ([], 0)),
            RowsInserted = snd (tally up e [] (splitSQLStatements script) ([], 0)),
            ExecutionTime = elapsed e, Error = [],
            StatementsRun = length (splitSQLStatements script)\<rparr>,
           None,
           db\<lparr>committed := committed db @ splitSQLStatements script, pending := None,
              calls := calls db @ Begin # map Exec (splitSQLStatements script) @ [Commit]\<rparr>))"
proof -
  define ss where "ss = splitSQLStatements script"
  define db1 where "db1 = db\<lparr>pending := Some [], calls := calls db @ [Begin]\<rparr>"
  define db2 where "db2 = db1\<lparr>pending := Some ([] @ ss), calls := calls db1 @ map Exec ss\<rparr>"
  have b: "db_Begin e db = (None, db1)"
    using assms(2) by (simp add: db_Begin_def db1_def)
  have wt: "list_all wellTrimmed ss"
    unfolding ss_def by (rule splitSQLStatements_wellTrimmed)
  have p: "pending db1 = Some []" by (simp add: db1_def)
  have x: "execLoop up e 0 ss ([], 0) db1 = (Inr (tally up e [] ss ([], 0)), db2)"
    using execLoop_success [OF p wt] assms(3) by (simp add: ss_def db2_def)
  obtain tc tr where t: "tally up e [] ss ([], 0) = (tc, tr)" by (cases "tally up e [] ss ([], 0)")
  have h: "history db2 = ss" by (simp add: history_def db2_def)
  show ?thesis
  proof (cases "commitErr e ss")
    case None
    then have "tx_Commit e db2 =
       (None, db2\<lparr>committed := committed db2 @ ss, pending := None, calls := calls db2 @ [Commit]\<rparr>)"
      by (simp add: tx_Commit_def h)
    then show ?thesis using assms(1) b x t None
      by (simp add: ApplyMigration_def ss_def [symmetric] db2_def db1_def)
  next
    case (Some err)
    then have "tx_Commit e db2 = (Some err, db2\<lparr>pending := None, calls := calls db2 @ [Commit]\<rparr>)"
      by (simp add: tx_Commit_def h)
    then show ?thesis using assms(1) b x t Some
      by (simp add: ApplyMigration_def ss_def [symmetric] db2_def db1_def emptyResult_def
          tx_Rollback_def)
  qed
qed


section \<open>The claims about the splitter\<close>

lemmas splitter_defs = splitSQLStatements_def runes_def step_def Let_def initState_def
  handleDollar_def handleComment_def emit_def TrimSpace_def isSpace_def isTagRune_def

lemma split_functionScript:
  "splitSQLStatements functionScript =
     [runes ''CREATE FUNCTION f() RETURNS void AS $$ BEGIN RAISE NOTICE 'x;y'; END; $$ LANGUAGE plpgsql'']"
  by (simp add: functionScript_def splitter_defs)


lemma split_commentScript: "splitSQLStatements commentScript = [runes ''-- note'']"
  by (simp add: commentScript_def splitter_defs)

text \<open>
  Claim C1. A semicolon inside a dollar-quoted region must not end a statement, and
  blocks that stand back to back are to be handled each on its own. The source looks for
  a tag at every dollar sign outside strings and comments, and leaves the scan position where it
  is when a tag is matched (lines 217 to 233), so the dollar sign that ends a tag is
  examined as the start of a tag in its turn. In the first script the region opened by
  \<^verbatim>\<open>$a$\<close> holds the text \<^verbatim>\<open>a$ ; \<close>: the dollar sign that ends the opening tag,
  the \<^verbatim>\<open>a\<close> and the next dollar sign are matched as the open tag, the dollar-quote is
  closed, and the semicolon inside the region ends a statement. In the second script the
  last dollar sign of the first block and the first of the second are matched as the
  empty tag; that opens a dollar-quote which no tag closes, and three statements come out
  as one.
\<close>

theorem dollar_tag_end_is_rescanned:
  "splitSQLStatements (runes ''SELECT $a$a$ ; $a$'') = [runes ''SELECT $a$a$'', runes ''$a$''] \<and>
   splitSQLStatements (runes ''SELECT $a$x;$a$$b$y;$b$; SELECT 2; SELECT 3;'') =
     [runes ''SELECT $a$x;$a$$b$y;$b$; SELECT 2; SELECT 3;'']"
  by (simp add: splitter_defs)



text \<open>
  Claim C3, as stated, fails: comment text is copied to the buffer as any other text, so a
  script of a comment, white space and a semicolon yields a statement, the comment.
\<close>

theorem comment_script_counterexample:
  "splitSQLStatements (runes ''-- note'' @ [NEWLINE] @ runes '' ; '') = [runes ''-- note'']"
  using split_commentScript by (simp add: commentScript_def)

text \<open>
  Claim C3, amended. A semicolon emits a statement exactly when no mode flag is set, and
  no other rune emits one. The statement emitted is the trimmed buffer, when it is not empty;
  the buffer is reset and the semicolon is not kept. At the end of the input
  the trimmed buffer that is left is emitted when it is not empty. Every statement of the result
  is trimmed and not empty, and there are at most as many as semicolons plus one. The
  empty script, and every script of white space and semicolons only, yields no
  statement. Inside a line comment the text up to the newline is copied to the buffer.
\<close>

theorem statements_emitted_at_separators:
  "step SEMICOLON rest st =
     (if \<not> inString st \<and> \<not> inComment st \<and> \<not> inDollarQuote st then (emit st, rest)
      else (st\<lparr>buf := buf st @ [SEMICOLON]\<rparr>, rest)) \<and>
   (char \<noteq> SEMICOLON \<longrightarrow> statements (fst (step char rest st)) = statements st) \<and>
   statements (emit st) =
     (if TrimSpace (buf st) = [] then statements st else statements st @ [TrimSpace (buf st)]) \<and>
   buf (emit st) = [] \<and>
   splitSQLStatements sql =
     statements (splitLoop sql initState) @
     (if TrimSpace (buf (splitLoop sql initState)) = [] then []
      else [TrimSpace (buf (splitLoop sql initState))]) \<and>
   list_all wellTrimmed (splitSQLStatements sql) \<and>
   length (splitSQLStatements sql) \<le> count_list sql SEMICOLON + 1 \<and>
   splitSQLStatements [] = [] \<and>
   ((\<forall>r \<in> set blanks. isSpace r \<or> r = SEMICOLON) \<longrightarrow> splitSQLStatements blanks = []) \<and>
   (inComment st \<and> NEWLINE \<notin> set text \<longrightarrow>
      splitLoop (text @ rest) st = splitLoop rest (st\<lparr>buf := buf st @ text\<rparr>))"
proof (intro conjI impI)
  show "step SEMICOLON rest st =
     (if \<not> inString st \<and> \<not> inComment st \<and> \<not> inDollarQuote st then (emit st, rest)
      else (st\<lparr>buf := buf st @ [SEMICOLON]\<rparr>, rest))"
    by (rule step_semicolon)
next
  assume "char \<noteq> SEMICOLON"
  then show "statements (fst (step char rest st)) = statements st"
    by (rule step_other_statements)
next
  show "statements (emit st) =
     (if TrimSpace (buf st) = [] then statements st else statements st @ [TrimSpace (buf st)])"
    by (rule emit_statements)
next
  show "buf (emit st) = []" by (simp add: emit_def Let_def)
next
  show "splitSQLStatements sql =
     statements (splitLoop sql initState) @
     (if TrimSpace (buf (splitLoop sql initState)) = [] then []
      else [TrimSpace (buf (splitLoop sql initState))])"
    by (rule splitSQLStatements_final)
next
  show "list_all wellTrimmed (splitSQLStatements sql)"
    by (rule splitSQLStatements_wellTrimmed)
next
  show "length (splitSQLStatements sql) \<le> count_list sql SEMICOLON + 1"
    by (rule splitSQLStatements_count)
next
  show "splitSQLStatements [] = []"
    by (simp add: splitSQLStatements_def initState_def)
next
  assume "\<forall>r \<in> set blanks. isSpace r \<or> r = SEMICOLON"
  then show "splitSQLStatements blanks = []"
    by (rule splitSQLStatements_blank)
next
  assume "inComment st \<and> NEWLINE \<notin> set text"
  then show "splitLoop (text @ rest) st = splitLoop rest (st\<lparr>buf := buf st @ text\<rparr>)"
    by (simp add: splitLoop_in_comment)
qed

theorem statements_emitted_at_separators_witness:
  "step SEMICOLON (runes '' b'') (initState\<lparr>buf := runes '' a ''\<rparr>) =
     (initState\<lparr>statements := [runes ''a'']\<rparr>, runes '' b'') \<and>
   statements (fst (step DASH (runes ''-c'') (initState\<lparr>buf := runes ''a''\<rparr>))) = [] \<and>
   splitSQLStatements (runes ''a ; b'') = [runes ''a'', runes ''b''] \<and>
   splitSQLStatements (runes '' ; ;; '' @ [NEWLINE, 9, 160] @ runes '';'') = [] \<and>
   splitLoop (runes '' x; y'' @ [NEWLINE]) (initState\<lparr>inComment := True, buf := runes ''--''\<rparr>) =
     splitLoop [NEWLINE] (initState\<lparr>inComment := True, buf := runes ''-- x; y''\<rparr>)"
  using statements_emitted_at_separators [of "runes '' b''" "initState\<lparr>buf := runes '' a ''\<rparr>" DASH
      "runes ''a ; b''" "runes '' ; ;; '' @ [NEWLINE, 9, 160] @ runes '';''" "[]"]
    statements_emitted_at_separators [of "runes ''-c''" "initState\<lparr>buf := runes ''a''\<rparr>" DASH "[]" "[]" "[]"]
    statements_emitted_at_separators [of "[NEWLINE]" "initState\<lparr>inComment := True, buf := runes ''--''\<rparr>"
      DASH "[]" "[]" "runes '' x; y''"]
  by (simp add: splitter_defs)


section \<open>The claims about ApplyMigration\<close>

lemma split_usersScript: "splitSQLStatements usersScript = [createUsers, insertOne, insertTwo]"
  by (simp add: usersScript_def createUsers_def insertOne_def insertTwo_def splitter_defs)

lemmas validate_defs = validateSQL_def dangerous_def TrimSpace_def isSpace_def ToUpper_def
  unicode_ToUpper_def HasPrefix_def runes_def

lemma validate_usersScript: "validateSQL up usersScript = None"
  by (simp add: usersScript_def validate_defs)

lemmas extract_defs = extractTableName_def stripName_def TrimSuffix_def HasSuffix_def Trim_def
  Fields_def Let_def

lemma track_createUsers: "track up createUsers rows acc = (fst acc @ [runes ''users''], snd acc)"
  by (simp add: track_def createUsers_def validate_defs extract_defs)

lemma track_insertOne: "track up insertOne rows acc = (fst acc, snd acc + rows)"
  by (simp add: track_def insertOne_def validate_defs extract_defs)

lemma track_insertTwo: "track up insertTwo rows acc = (fst acc, snd acc + rows)"
  by (simp add: track_def insertTwo_def validate_defs extract_defs)

lemma run_users_ok:
  "ApplyMigration id okEnv usersScript db0 =
     (\<lparr>Success = True, TablesCreated = [runes ''users''], RowsInserted = 2, ExecutionTime = 5,
       Error = [], StatementsRun = 3\<rparr>, None,
      \<lparr>committed = [createUsers, insertOne, insertTwo], pending = None,
        calls = [Begin, Exec createUsers, Exec insertOne, Exec insertTwo, Commit]\<rparr>)"
  using ApplyMigration_commit [of id usersScript okEnv db0] validate_usersScript [of id]
  by (simp add: split_usersScript okEnv_def db0_def track_createUsers track_insertOne
      track_insertTwo)

lemma run_users_fail:
  "ApplyMigration id (failAt 2) usersScript db0 =
     (emptyResult\<lparr>Error := failureText 2 (DriverError (runes ''no such table'')) insertOne,
                  StatementsRun := 3\<rparr>,
      Some (StatementFailed 2 (DriverError (runes ''no such table''))),
      \<lparr>committed = [], pending = None,
        calls = [Begin, Exec createUsers, Exec insertOne, Rollback]\<rparr>)"
  using ApplyMigration_statement_fails [of id usersScript "failAt 2" "[createUsers]" insertOne
      "[insertTwo]" "DriverError (runes ''no such table'')" db0] validate_usersScript [of id]
  by (simp add: split_usersScript failAt_def db0_def numeral_2_eq_2 numeral_3_eq_3)

lemma run_users_fail3:
  "ApplyMigration id (failAt 3) usersScript db0 =
     (emptyResult\<lparr>Error := failureText 3 (DriverError (runes ''no such table'')) insertTwo,
                  StatementsRun := 3\<rparr>,
      Some (StatementFailed 3 (DriverError (runes ''no such table''))),
      \<lparr>committed = [], pending = None,
        calls = [Begin, Exec createUsers, Exec insertOne, Exec insertTwo, Rollback]\<rparr>)"
  using ApplyMigration_statement_fails [of id usersScript "failAt 3" "[createUsers, insertOne]"
      insertTwo "[]" "DriverError (runes ''no such table'')" db0] validate_usersScript [of id]
  by (simp add: split_usersScript failAt_def db0_def numeral_2_eq_2 numeral_3_eq_3)

lemma run_users_commit_fails:
  "ApplyMigration id commitFails usersScript db0 =
     (emptyResult\<lparr>Error := runes ''failed to commit transaction: commit refused'',
                  StatementsRun := 3\<rparr>,
      Some (DriverError (runes ''commit refused'')),
      \<lparr>committed = [], pending = None,
        calls = [Begin, Exec createUsers, Exec insertOne, Exec insertTwo, Commit, Rollback]\<rparr>)"
  using ApplyMigration_commit [of id usersScript commitFails db0] validate_usersScript [of id]
  by (simp add: split_usersScript commitFails_def db0_def) (simp add: runes_def)

lemma sliceTo_length: "length (sliceTo n s) \<le> n"
proof (induction s arbitrary: n)
  case Nil
  then show ?case by simp
next
  case (Cons r s)
  have "1 \<le> RuneLen r" by (simp add: RuneLen_def)
  moreover have "length (sliceTo (n - RuneLen r) s) \<le> n - RuneLen r" by (rule Cons.IH)
  ultimately show ?case by auto
qed

lemma sliceTo_whole: "len s \<le> n \<Longrightarrow> sliceTo n s = s"
  by (induction s arbitrary: n) (auto simp: len_def)

lemma sliceTo_shape: "\<exists>m j. j < 4 \<and> sliceTo n s = take m s @ replicate j RuneError"
proof (induction s arbitrary: n)
  case Nil
  have "(0::nat) < 4 \<and> sliceTo n [] = take 0 [] @ replicate 0 RuneError" by simp
  then show ?case by blast
next
  case (Cons r s)
  show ?case
  proof (cases "RuneLen r \<le> n")
    case True
    from Cons.IH [of "n - RuneLen r"] obtain m j where
      "j < 4" "sliceTo (n - RuneLen r) s = take m s @ replicate j RuneError" by blast
    with True have "j < 4 \<and> sliceTo n (r # s) = take (Suc m) (r # s) @ replicate j RuneError"
      by simp
    then show ?thesis by blast
  next
    case False
    moreover have "RuneLen r \<le> 4" by (simp add: RuneLen_def)
    ultimately have "n < 4 \<and> sliceTo n (r # s) = take 0 (r # s) @ replicate n RuneError"
      by simp
    then show ?thesis by blast
  qed
qed

lemma sliceTo_ascii: "\<forall>r \<in> set s. r < 128 \<Longrightarrow> sliceTo n s = take n s"
proof (induction s arbitrary: n)
  case Nil
  then show ?case by simp
next
  case (Cons r s)
  then have "RuneLen r = 1" by (simp add: RuneLen_def)
  with Cons show ?case by (cases n) auto
qed

lemma len_ascii: "\<forall>r \<in> set s. r < 128 \<Longrightarrow> len s = length s"
  by (induction s) (auto simp: len_def RuneLen_def)

lemma excerpt_insertOne: "sliceTo (min_go (len insertOne) 100) insertOne = insertOne"
  by (rule sliceTo_whole [unfolded atomize_imp, rule_format])
     (simp add: insertOne_def runes_def len_def RuneLen_def min_go_def)

text \<open>
  Claim C4. ApplyMigration is atomic. A result with \<open>Success\<close> set is returned without an
  error, and only when every statement executed and the commit succeeded: the calls are
  Begin, the statements in order, Commit, and the statements are durable. A result without
  \<open>Success\<close> comes with an error and leaves the durable state as it was; on the failure
  paths behind Begin (a failed statement, a failed commit) the last call is Rollback and no
  transaction stays open.
\<close>

theorem ApplyMigration_atomic:
  assumes "ApplyMigration up e script db = (res, err, db')"
  shows "(Success res \<longrightarrow>
            err = None \<and> allSucceed e [] (splitSQLStatements script) \<and>
            commitErr e (splitSQLStatements script) = None \<and>
            calls db' = calls db @ Begin # map Exec (splitSQLStatements script) @ [Commit] \<and>
            committed db' = committed db @ splitSQLStatements script) \<and>
         (\<not> Success res \<longrightarrow>
            err \<noteq> None \<and> committed db' = committed db \<and>
            (validateSQL up script = None \<and> beginErr e = None \<longrightarrow>
               pending db' = None \<and> calls db' \<noteq> [] \<and> last (calls db') = Rollback))"
proof (cases "validateSQL up script")
  case (Some verr)
  from ApplyMigration_invalid [OF this, of e db] assms show ?thesis
    by (auto simp: emptyResult_def Some)
next
  case None
  note v = this
  show ?thesis
  proof (cases "beginErr e")
    case (Some berr)
    from ApplyMigration_begin_fails [OF v this, of db] assms show ?thesis
      by (auto simp: emptyResult_def Some)
  next
    case None
    note b = this
    from allSucceed_or_failure [of e "[]" "splitSQLStatements script"] show ?thesis
    proof
      assume ok: "allSucceed e [] (splitSQLStatements script)"
      show ?thesis
      proof (cases "commitErr e (splitSQLStatements script)")
        case None
        with ApplyMigration_commit [OF v b ok, of db] assms ok show ?thesis
          by auto
      next
        case (Some cerr)
        with ApplyMigration_commit [OF v b ok, of db] assms show ?thesis
          by (auto simp: emptyResult_def)
      qed
    next
      assume "\<exists>pre s post err. splitSQLStatements script = pre @ s # post \<and>
        allSucceed e [] pre \<and> execRes e ([] @ pre) s = Inl err"
      then obtain pre s post xerr where f: "splitSQLStatements script = pre @ s # post"
        "allSucceed e [] pre" "execRes e pre s = Inl xerr" by auto
      from ApplyMigration_statement_fails [OF v b f, of db] assms show ?thesis
        by (auto simp: emptyResult_def)
    qed
  qed
qed

theorem ApplyMigration_atomic_witness:
  "\<not> Success (fst (ApplyMigration id (failAt 2) usersScript db0)) \<and>
   committed (snd (snd (ApplyMigration id (failAt 2) usersScript db0))) = [] \<and>
   last (calls (snd (snd (ApplyMigration id (failAt 2) usersScript db0)))) = Rollback \<and>
   \<not> Success (fst (ApplyMigration id commitFails usersScript db0)) \<and>
   committed (snd (snd (ApplyMigration id commitFails usersScript db0))) = [] \<and>
   last (calls (snd (snd (ApplyMigration id commitFails usersScript db0)))) = Rollback \<and>
   Success (fst (ApplyMigration id okEnv usersScript db0)) \<and>
   committed (snd (snd (ApplyMigration id okEnv usersScript db0))) =
     [createUsers, insertOne, insertTwo] \<and>
   calls (snd (snd (ApplyMigration id okEnv usersScript db0))) =
     [Begin, Exec createUsers, Exec insertOne, Exec insertTwo, Commit]"
proof -
  have v: "validateSQL id usersScript = None" by (rule validate_usersScript)
  have b: "beginErr (failAt 2) = None" "beginErr commitFails = None"
    by (simp_all add: failAt_def commitFails_def)
  show ?thesis
    using ApplyMigration_atomic [OF run_users_fail] ApplyMigration_atomic [OF run_users_commit_fails]
      ApplyMigration_atomic [OF run_users_ok] v b
    by (simp add: run_users_fail run_users_commit_fails run_users_ok emptyResult_def
        split_usersScript)
qed

text \<open>
  Claim C5. When the \<open>k\<close>-th statement fails (the statements \<open>pre\<close> before it executed,
  \<open>k = length pre + 1\<close>), ApplyMigration executes nothing behind it: the calls are
  Begin, the first \<open>k\<close> statements, Rollback. The error text names the index \<open>k\<close> and ends
  with an excerpt of the statement, which is trimmed: its first 100 bytes, hence at most
  100 runes, the whole statement when that is no longer, and its first 100 runes when
  the statement is ASCII.
\<close>

theorem failing_statement_stops_the_run:
  assumes "validateSQL up script = None" "beginErr e = None"
    and "splitSQLStatements script = pre @ s # post"
    and "allSucceed e [] pre" "execRes e pre s = Inl err"
  shows "ApplyMigration up e script db =
           (\<lparr>Success = False, TablesCreated = [], RowsInserted = 0, ExecutionTime = 0,
             Error = runes ''statement '' @ itoa (length pre + 1) @ runes '' failed: '' @
                     errorText err @ [NEWLINE] @ runes ''Statement: '' @
                     sliceTo (min_go (len s) 100) s,
             StatementsRun = length pre + 1 + length post\<rparr>,
            Some (StatementFailed (length pre + 1) err),
            db\<lparr>pending := None, calls := calls db @ Begin # map Exec pre @ [Exec s, Rollback]\<rparr>) \<and>
         TrimSpace s = s \<and>
         length (sliceTo (min_go (len s) 100) s) \<le> 100 \<and>
         (len s \<le> 100 \<longrightarrow> sliceTo (min_go (len s) 100) s = s) \<and>
         (\<exists>m j. j < 4 \<and> sliceTo (min_go (len s) 100) s = take m s @ replicate j RuneError) \<and>
         ((\<forall>r \<in> set s. r < 128) \<longrightarrow> sliceTo (min_go (len s) 100) s = take 100 s)"
proof (intro conjI impI)
  show "ApplyMigration up e script db =
           (\<lparr>Success = False, TablesCreated = [], RowsInserted = 0, ExecutionTime = 0,
             Error = runes ''statement '' @ itoa (length pre + 1) @ runes '' failed: '' @
                     errorText err @ [NEWLINE] @ runes ''Statement: '' @
                     sliceTo (min_go (len s) 100) s,
             StatementsRun = length pre + 1 + length post\<rparr>,
            Some (StatementFailed (length pre + 1) err),
            db\<lparr>pending := None, calls := calls db @ Begin # map Exec pre @ [Exec s, Rollback]\<rparr>)"
    using ApplyMigration_statement_fails [OF assms, of db] assms(3)
    by (simp add: emptyResult_def failureText_def)
next
  have "list_all wellTrimmed (pre @ s # post)"
    using splitSQLStatements_wellTrimmed [of script] assms(3) by simp
  then show "TrimSpace s = s" by (simp add: wellTrimmed_def)
next
  have "min_go (len s) 100 \<le> 100" by (simp add: min_go_def)
  with sliceTo_length [of "min_go (len s) 100" s]
  show "length (sliceTo (min_go (len s) 100) s) \<le> 100" by simp
next
  assume "len s \<le> 100"
  then show "sliceTo (min_go (len s) 100) s = s"
    by (simp add: min_go_def sliceTo_whole)
next
  show "\<exists>m j. j < 4 \<and> sliceTo (min_go (len s) 100) s = take m s @ replicate j RuneError"
    by (rule sliceTo_shape)
next
  assume a: "\<forall>r \<in> set s. r < 128"
  then show "sliceTo (min_go (len s) 100) s = take 100 s"
    by (simp add: sliceTo_ascii len_ascii min_go_def)
qed


theorem failing_statement_stops_the_run_witness:
  "ApplyMigration id (failAt 2) usersScript db0 =
     (\<lparr>Success = False, TablesCreated = [], RowsInserted = 0, ExecutionTime = 0,
       Error = runes ''statement 2 failed: no such table'' @ [NEWLINE] @
               runes ''Statement: INSERT INTO users VALUES (1)'',
       StatementsRun = 3\<rparr>,
      Some (StatementFailed 2 (DriverError (runes ''no such table''))),
      \<lparr>committed = [], pending = None,
        calls = [Begin, Exec createUsers, Exec insertOne, Rollback]\<rparr>) \<and>
   sliceTo (min_go (len insertOne) 100) insertOne = take 100 insertOne"
  using failing_statement_stops_the_run [of id usersScript "failAt 2" "[createUsers]" insertOne
      "[insertTwo]" "DriverError (runes ''no such table'')" db0]
    validate_usersScript [of id] split_usersScript excerpt_insertOne
  by (simp add: failAt_def db0_def itoa.simps) (simp add: insertOne_def runes_def)


text \<open>
  Claim C8. For the script of the specification's example, when the three statements
  execute and each INSERT reports one row, ApplyMigration returns \<open>Success\<close>, the created
  table \<open>users\<close>, two rows inserted and three statements run. On every successful run
  the rows inserted are the sum of the rows reported by the statements that begin with
  INSERT, in any case.
\<close>

theorem users_script_result:
  assumes "beginErr e = None"
    and "execRes e [] createUsers = Inr n"
    and "execRes e [createUsers] insertOne = Inr 1"
    and "execRes e [createUsers, insertOne] insertTwo = Inr 1"
    and "commitErr e [createUsers, insertOne, insertTwo] = None"
  shows "splitSQLStatements usersScript = [createUsers, insertOne, insertTwo] \<and>
         fst (ApplyMigration up e usersScript db) =
           \<lparr>Success = True, TablesCreated = [runes ''users''], RowsInserted = 2,
            ExecutionTime = elapsed e, Error = [], StatementsRun = 3\<rparr> \<and>
         (validateSQL up script = None \<and> beginErr ev = None \<and>
          allSucceed ev [] (splitSQLStatements script) \<and>
          commitErr ev (splitSQLStatements script) = None \<longrightarrow>
            Success (fst (ApplyMigration up ev script db)) \<and>
            RowsInserted (fst (ApplyMigration up ev script db)) =
              insertedRows up ev [] (splitSQLStatements script))"
proof (intro conjI impI)
  show "splitSQLStatements usersScript = [createUsers, insertOne, insertTwo]"
    by (rule split_usersScript)
next
  have ok: "allSucceed e [] (splitSQLStatements usersScript)"
    using assms by (simp add: split_usersScript)
  show "fst (ApplyMigration up e usersScript db) =
           \<lparr>Success = True, TablesCreated = [runes ''users''], RowsInserted = 2,
            ExecutionTime = elapsed e, Error = [], StatementsRun = 3\<rparr>"
    using ApplyMigration_commit [OF validate_usersScript assms(1) ok, of up db] assms
    by (simp add: split_usersScript track_createUsers track_insertOne track_insertTwo)
next
  assume a: "validateSQL up script = None \<and> beginErr ev = None \<and>
          allSucceed ev [] (splitSQLStatements script) \<and>
          commitErr ev (splitSQLStatements script) = None"
  then have r: "ApplyMigration up ev script db =
      (\<lparr>Success = True,
        TablesCreated = fst (tally up ev [] (splitSQLStatements script) ([], 0)),
        RowsInserted = snd (tally up ev [] (splitSQLStatements script) ([], 0)),
        ExecutionTime = elapsed ev, Error = [],
        StatementsRun = length (splitSQLStatements script)\<rparr>,
       None,
       db\<lparr>committed := committed db @ splitSQLStatements script, pending := None,
          calls := calls db @ Begin # map Exec (splitSQLStatements script) @ [Commit]\<rparr>)"
    using ApplyMigration_commit [of up script ev db] by simp
  then show "Success (fst (ApplyMigration up ev script db))" by simp
  from r a show "RowsInserted (fst (ApplyMigration up ev script db)) =
              insertedRows up ev [] (splitSQLStatements script)"
    by (simp add: tally_rows)
qed

theorem users_script_result_witness:
  "fst (ApplyMigration id okEnv usersScript db0) =
     \<lparr>Success = True, TablesCreated = [runes ''users''], RowsInserted = 2,
      ExecutionTime = 5, Error = [], StatementsRun = 3\<rparr> \<and>
   RowsInserted (fst (ApplyMigration id okEnv usersScript db0)) =
     insertedRows id okEnv [] [createUsers, insertOne, insertTwo]"
proof -
  have h: "beginErr okEnv = None" "execRes okEnv [] createUsers = Inr 1"
    "execRes okEnv [createUsers] insertOne = Inr 1"
    "execRes okEnv [createUsers, insertOne] insertTwo = Inr 1"
    "commitErr okEnv [createUsers, insertOne, insertTwo] = None"
    by (simp_all add: okEnv_def)
  have a: "allSucceed okEnv [] (splitSQLStatements usersScript)"
    "commitErr okEnv (splitSQLStatements usersScript) = None"
    by (simp_all add: split_usersScript okEnv_def)
  have e: "elapsed okEnv = 5" by (simp add: okEnv_def)
  note t = users_script_result [OF h, where up = id and script = usersScript and ev = okEnv
      and db = db0]
  have 1: "fst (ApplyMigration id okEnv usersScript db0) =
     \<lparr>Success = True, TablesCreated = [runes ''users''], RowsInserted = 2,
      ExecutionTime = elapsed okEnv, Error = [], StatementsRun = 3\<rparr>"
    using t by blast
  have 2: "RowsInserted (fst (ApplyMigration id okEnv usersScript db0)) =
     insertedRows id okEnv [] (splitSQLStatements usersScript)"
    using t validate_usersScript [of id] h(1) a by blast
  show ?thesis
    using 1 [unfolded e] 2 [unfolded split_usersScript] by (rule conjI)
qed


lemma HasPrefix_iff: "HasPrefix s d \<longleftrightarrow> (\<exists>ss. s = d @ ss)"
proof
  assume "HasPrefix s d"
  then have "s = d @ drop (length d) s"
    by (metis HasPrefix_def append_take_drop_id)
  then show "\<exists>ss. s = d @ ss" ..
next
  assume "\<exists>ss. s = d @ ss"
  then show "HasPrefix s d" by (auto simp: HasPrefix_def)
qed

lemma Contains_iff: "Contains s d \<longleftrightarrow> (\<exists>ps ss. s = ps @ d @ ss)"
proof (induction s)
  case Nil
  then show ?case by auto
next
  case (Cons c s)
  show ?case
  proof
    assume "Contains (c # s) d"
    then consider "HasPrefix (c # s) d" | "Contains s d" by auto
    then show "\<exists>ps ss. c # s = ps @ d @ ss"
    proof cases
      case 1
      then obtain ss where "c # s = [] @ d @ ss" by (auto simp: HasPrefix_iff)
      then show ?thesis by blast
    next
      case 2
      with Cons.IH obtain ps ss where "s = ps @ d @ ss" by blast
      then have "c # s = (c # ps) @ d @ ss" by simp
      then show ?thesis by blast
    qed
  next
    assume "\<exists>ps ss. c # s = ps @ d @ ss"
    then obtain ps ss where e: "c # s = ps @ d @ ss" by blast
    show "Contains (c # s) d"
    proof (cases ps)
      case Nil
      with e have "HasPrefix (c # s) d" by (auto simp: HasPrefix_iff)
      then show ?thesis by simp
    next
      case (Cons a ps')
      with e have "s = ps' @ d @ ss" by simp
      with Cons.IH have "Contains s d" by blast
      then show ?thesis by simp
    qed
  qed
qed

lemma dropWhile_keeps:
  "m \<noteq> [] \<Longrightarrow> \<not> P (hd m) \<Longrightarrow> \<exists>ps'. dropWhile P (ps @ m @ ss) = ps' @ m @ ss"
proof (induction ps)
  case Nil
  then have "dropWhile P ([] @ m @ ss) = [] @ m @ ss" by (cases m) auto
  then show ?case by blast
next
  case (Cons a ps)
  show ?case
  proof (cases "P a")
    case True
    with Cons show ?thesis by simp
  next
    case False
    then have "dropWhile P ((a # ps) @ m @ ss) = (a # ps) @ m @ ss" by simp
    then show ?thesis by blast
  qed
qed

lemma TrimSpace_keeps:
  assumes "m \<noteq> []" "\<not> isSpace (hd m)" "\<not> isSpace (last m)"
  shows "\<exists>ps' ss'. TrimSpace (ps @ m @ ss) = ps' @ m @ ss'"
proof -
  from dropWhile_keeps [where P = isSpace and m = m, OF assms(1,2)] obtain ps' where
    1: "dropWhile isSpace (ps @ m @ ss) = ps' @ m @ ss" by blast
  have "rev m \<noteq> []" "\<not> isSpace (hd (rev m))"
    using assms(1,3) by (simp_all add: hd_rev)
  from dropWhile_keeps [where P = isSpace and m = "rev m", OF this, of "rev ss" "rev ps'"] obtain q where
    2: "dropWhile isSpace (rev ss @ rev m @ rev ps') = q @ rev m @ rev ps'" by blast
  have "TrimSpace (ps @ m @ ss) = ps' @ m @ rev q"
    by (simp add: TrimSpace_def 1 2)
  then show ?thesis by blast
qed

lemma Contains_ToUpper_TrimSpace:
  assumes sp: "\<forall>r. isSpace r \<longrightarrow> isSpace (unicode_ToUpper up r)"
    and c: "Contains (ToUpper up s) d"
    and d: "d \<noteq> []" "\<not> isSpace (hd d)" "\<not> isSpace (last d)"
  shows "Contains (ToUpper up (TrimSpace s)) d"
proof -
  from c obtain ps ss where e: "map (unicode_ToUpper up) s = ps @ d @ ss"
    by (auto simp: Contains_iff ToUpper_def)
  define ps0 where "ps0 = take (length ps) s"
  define m where "m = take (length d) (drop (length ps) s)"
  define ss0 where "ss0 = drop (length d) (drop (length ps) s)"
  have s: "s = ps0 @ m @ ss0"
    unfolding ps0_def m_def ss0_def by (simp only: append_take_drop_id)
  have "map (unicode_ToUpper up) m = take (length d) (drop (length ps) (map (unicode_ToUpper up) s))"
    by (simp add: m_def take_map drop_map)
  then have m: "map (unicode_ToUpper up) m = d" by (simp add: e)
  from m d(1) have mne: "m \<noteq> []" by auto
  have "hd d = unicode_ToUpper up (hd m)" "last d = unicode_ToUpper up (last m)"
    using m mne by (auto simp: hd_map last_map)
  with d sp have "\<not> isSpace (hd m)" "\<not> isSpace (last m)" by auto
  from TrimSpace_keeps [OF mne this, of ps0 ss0] s obtain ps' ss' where
    "TrimSpace s = ps' @ m @ ss'" by auto
  then have "ToUpper up (TrimSpace s) = ToUpper up ps' @ d @ ToUpper up ss'"
    using m by (simp add: ToUpper_def)
  then show ?thesis unfolding Contains_iff by blast
qed

lemma firstDanger_Some:
  "d \<in> set ds \<Longrightarrow> Contains u d \<Longrightarrow> \<exists>d' \<in> set ds. firstDanger u ds = Some (DangerousOperation d')"
  by (induction ds) auto

lemma firstDanger_None: "firstDanger u ds = None \<longleftrightarrow> (\<forall>d \<in> set ds. \<not> Contains u d)"
  by (induction ds) auto

lemma dangerous_shape: "d \<in> set dangerous \<Longrightarrow> d \<noteq> [] \<and> \<not> isSpace (hd d) \<and> \<not> isSpace (last d)"
  by (auto simp: dangerous_def runes_def isSpace_def)

lemma validateSQL_dangerous:
  assumes "d \<in> set dangerous" "Contains (ToUpper up (TrimSpace script)) d"
  shows "\<exists>d' \<in> set dangerous. validateSQL up script = Some (DangerousOperation d')"
proof -
  have "d \<noteq> []" using dangerous_shape [OF assms(1)] by simp
  with assms(2) have "TrimSpace script \<noteq> []"
    by (auto simp: Contains_iff ToUpper_def)
  then show ?thesis
    using firstDanger_Some [OF assms] by (simp add: validateSQL_def)
qed

lemma validateSQL_None:
  "validateSQL up script = None \<longleftrightarrow>
     TrimSpace script \<noteq> [] \<and> (\<forall>d \<in> set dangerous. \<not> Contains (ToUpper up (TrimSpace script)) d)"
  by (auto simp: validateSQL_def Let_def firstDanger_None)

text \<open>
  Claim C7. Validation fails with the empty-script error for every script that is empty
  once trimmed, and with the denylist error for every script whose trimmed, uppercased
  text contains DROP DATABASE, DROP SCHEMA or TRUNCATE DATABASE, hence in any case of the
  letters; the same holds for the uppercased text of the whole script, as upper-casing
  keeps white space white space. The two errors and their texts differ. When validation
  fails, ApplyMigration returns the result without \<open>Success\<close>, with the validation
  text and zero statements run, returns the validation error, and makes no call to the
  database: no transaction is opened.
\<close>

theorem validation_rejects:
  "(TrimSpace script = [] \<longrightarrow> validateSQL up script = Some SQLEmpty) \<and>
   (d \<in> set dangerous \<and> Contains (ToUpper up (TrimSpace script)) d \<longrightarrow>
      (\<exists>d' \<in> set dangerous. validateSQL up script = Some (DangerousOperation d'))) \<and>
   ((\<forall>r. isSpace r \<longrightarrow> isSpace (unicode_ToUpper up r)) \<and>
    d \<in> set dangerous \<and> Contains (ToUpper up script) d \<longrightarrow>
      (\<exists>d' \<in> set dangerous. validateSQL up script = Some (DangerousOperation d'))) \<and>
   dangerous = [runes ''DROP DATABASE'', runes ''DROP SCHEMA'', runes ''TRUNCATE DATABASE''] \<and>
   errorText SQLEmpty \<noteq> errorText (DangerousOperation d) \<and>
   (validateSQL up script = Some err \<longrightarrow>
      ApplyMigration up e script db =
        (\<lparr>Success = False, TablesCreated = [], RowsInserted = 0, ExecutionTime = 0,
          Error = runes ''SQL validation failed: '' @ errorText err, StatementsRun = 0\<rparr>,
         Some err, db))"
proof (intro conjI impI)
  assume "TrimSpace script = []"
  then show "validateSQL up script = Some SQLEmpty" by (simp add: validateSQL_def)
next
  assume "d \<in> set dangerous \<and> Contains (ToUpper up (TrimSpace script)) d"
  then show "\<exists>d' \<in> set dangerous. validateSQL up script = Some (DangerousOperation d')"
    using validateSQL_dangerous by blast
next
  assume a: "(\<forall>r. isSpace r \<longrightarrow> isSpace (unicode_ToUpper up r)) \<and>
    d \<in> set dangerous \<and> Contains (ToUpper up script) d"
  then have "Contains (ToUpper up (TrimSpace script)) d"
    using Contains_ToUpper_TrimSpace [of up script d] dangerous_shape [of d] by blast
  with a show "\<exists>d' \<in> set dangerous. validateSQL up script = Some (DangerousOperation d')"
    using validateSQL_dangerous by blast
next
  show "dangerous = [runes ''DROP DATABASE'', runes ''DROP SCHEMA'', runes ''TRUNCATE DATABASE'']"
    by (rule dangerous_def)
next
  show "errorText SQLEmpty \<noteq> errorText (DangerousOperation d)"
    by (simp add: runes_def)
next
  assume "validateSQL up script = Some err"
  then show "ApplyMigration up e script db =
        (\<lparr>Success = False, TablesCreated = [], RowsInserted = 0, ExecutionTime = 0,
          Error = runes ''SQL validation failed: '' @ errorText err, StatementsRun = 0\<rparr>,
         Some err, db)"
    using ApplyMigration_invalid [of up script err e db] by (simp add: emptyResult_def)
qed


theorem validation_rejects_witness:
  "validateSQL id (runes ''  '' @ [NEWLINE]) = Some SQLEmpty \<and>
   validateSQL id (runes ''DROP DATABASE foo;'') = Some (DangerousOperation (runes ''DROP DATABASE'')) \<and>
   validateSQL id (runes '' drop database foo;'') = Some (DangerousOperation (runes ''DROP DATABASE'')) \<and>
   validateSQL id (runes ''Drop Schema s cascade'') = Some (DangerousOperation (runes ''DROP SCHEMA'')) \<and>
   ApplyMigration id okEnv (runes '' drop database foo;'') db0 =
     (\<lparr>Success = False, TablesCreated = [], RowsInserted = 0, ExecutionTime = 0,
       Error = runes ''SQL validation failed: dangerous operation detected: DROP DATABASE'',
       StatementsRun = 0\<rparr>,
      Some (DangerousOperation (runes ''DROP DATABASE'')), db0)"
proof -
  have 1: "validateSQL id (runes '' drop database foo;'') = Some (DangerousOperation (runes ''DROP DATABASE''))"
    by (simp add: validate_defs)
  have 2: "Contains (ToUpper id (runes '' drop database foo;'')) (runes ''DROP DATABASE'')"
    by (simp add: validate_defs)
  have 3: "Contains (ToUpper id (TrimSpace (runes ''Drop Schema s cascade''))) (runes ''DROP SCHEMA'')"
    by (simp add: validate_defs)
  have 4: "\<forall>r. isSpace r \<longrightarrow> isSpace (unicode_ToUpper id r)"
    by (auto simp: isSpace_def unicode_ToUpper_def)
  show ?thesis
    using validation_rejects [of "runes ''  '' @ [NEWLINE]" id "runes ''DROP DATABASE''" "SQLEmpty" okEnv db0]
      validation_rejects [of "runes '' drop database foo;''" id "runes ''DROP DATABASE''"
        "DangerousOperation (runes ''DROP DATABASE'')" okEnv db0]
      validation_rejects [of "runes ''Drop Schema s cascade''" id "runes ''DROP SCHEMA''" "SQLEmpty" okEnv db0]
      1 2 3 4
    by (simp add: validate_defs)
qed

text \<open>
  Claim C9, as stated, fails: when the third statement of the example script fails, the
  two statements before it have created the table \<open>users\<close> and inserted one row, and the
  result returned carries no table and zero rows.
\<close>

theorem failed_run_counts_counterexample:
  "splitSQLStatements usersScript = [createUsers, insertOne, insertTwo] \<and>
   execRes (failAt 3) [] createUsers = Inr 1 \<and>
   execRes (failAt 3) [createUsers] insertOne = Inr 1 \<and>
   execRes (failAt 3) [createUsers, insertOne] insertTwo = Inl (DriverError (runes ''no such table'')) \<and>
   tally id (failAt 3) [] [createUsers, insertOne] ([], 0) = ([runes ''users''], 1) \<and>
   TablesCreated (fst (ApplyMigration id (failAt 3) usersScript db0)) = [] \<and>
   RowsInserted (fst (ApplyMigration id (failAt 3) usersScript db0)) = 0"
proof -
  have "execRes (failAt 3) [] createUsers = Inr 1"
    "execRes (failAt 3) [createUsers] insertOne = Inr 1"
    "execRes (failAt 3) [createUsers, insertOne] insertTwo = Inl (DriverError (runes ''no such table''))"
    "tally id (failAt 3) [] [createUsers, insertOne] ([], 0) = ([runes ''users''], 1)"
    by (simp_all add: failAt_def track_createUsers track_insertOne)
  then show ?thesis
    by (simp add: run_users_fail3 emptyResult_def split_usersScript)
qed

text \<open>
  Claim C9, amended. When the \<open>k\<close>-th statement fails, the result returned carries no
  created table and zero rows inserted, whatever the statements before it did: the two
  tallies are local and reach the result on success only. Nothing is durable.
\<close>

theorem failed_run_reports_no_counts:
  assumes "validateSQL up script = None" "beginErr e = None"
    and "splitSQLStatements script = pre @ s # post"
    and "allSucceed e [] pre" "execRes e pre s = Inl err"
  shows "TablesCreated (fst (ApplyMigration up e script db)) = [] \<and>
         RowsInserted (fst (ApplyMigration up e script db)) = 0 \<and>
         committed (snd (snd (ApplyMigration up e script db))) = committed db"
  using ApplyMigration_statement_fails [OF assms, of db] by (simp add: emptyResult_def)

theorem failed_run_reports_no_counts_witness:
  "TablesCreated (fst (ApplyMigration id (failAt 3) usersScript db0)) = [] \<and>
   RowsInserted (fst (ApplyMigration id (failAt 3) usersScript db0)) = 0 \<and>
   committed (snd (snd (ApplyMigration id (failAt 3) usersScript db0))) = []"
  using failed_run_reports_no_counts [of id usersScript "failAt 3" "[createUsers, insertOne]"
      insertTwo "[]" "DriverError (runes ''no such table'')" db0] validate_usersScript [of id]
  by (simp add: split_usersScript failAt_def db0_def)

text \<open>
  Claim C10. For every script that passes validation, \<open>StatementsRun\<close> of the result is
  the number of statements the splitter produced, on every path. When a statement in
  the middle fails it is still that number, while the calls show that only the
  statements up to the failing one were executed.
\<close>

theorem statements_run_is_split_count:
  "(validateSQL up script = None \<longrightarrow>
      StatementsRun (fst (ApplyMigration up e script db)) = length (splitSQLStatements script)) \<and>
   (validateSQL up script = None \<and> beginErr e = None \<and>
    splitSQLStatements script = pre @ s # post \<and> allSucceed e [] pre \<and>
    execRes e pre s = Inl err \<longrightarrow>
      StatementsRun (fst (ApplyMigration up e script db)) = length pre + 1 + length post \<and>
      calls (snd (snd (ApplyMigration up e script db))) =
        calls db @ Begin # map Exec pre @ [Exec s, Rollback])"
proof (intro conjI impI)
  assume "validateSQL up script = None"
  then show "StatementsRun (fst (ApplyMigration up e script db)) = length (splitSQLStatements script)"
    by (simp add: ApplyMigration_def Let_def split: prod.splits option.splits sum.splits)
next
  assume a: "validateSQL up script = None \<and> beginErr e = None \<and>
    splitSQLStatements script = pre @ s # post \<and> allSucceed e [] pre \<and>
    execRes e pre s = Inl err"
  then have r: "ApplyMigration up e script db =
     (emptyResult\<lparr>Error := failureText (length pre + 1) err s,
                  StatementsRun := length (splitSQLStatements script)\<rparr>,
      Some (StatementFailed (length pre + 1) err),
      db\<lparr>pending := None, calls := calls db @ Begin # map Exec pre @ [Exec s, Rollback]\<rparr>)"
    using ApplyMigration_statement_fails [of up script e pre s post err db] by blast
  from r a show "StatementsRun (fst (ApplyMigration up e script db)) = length pre + 1 + length post"
    by simp
  from r show "calls (snd (snd (ApplyMigration up e script db))) =
        calls db @ Begin # map Exec pre @ [Exec s, Rollback]"
    by simp
qed

theorem statements_run_is_split_count_witness:
  "StatementsRun (fst (ApplyMigration id (failAt 2) usersScript db0)) = 3 \<and>
   calls (snd (snd (ApplyMigration id (failAt 2) usersScript db0))) =
     [Begin, Exec createUsers, Exec insertOne, Rollback] \<and>
   StatementsRun (fst (ApplyMigration id okEnv usersScript db0)) = 3"
  using statements_run_is_split_count [of id usersScript "failAt 2" db0 "[createUsers]" insertOne
      "[insertTwo]" "DriverError (runes ''no such table'')"]
    statements_run_is_split_count [of id usersScript okEnv db0 "[]" "[]" "[]" SQLEmpty]
    validate_usersScript [of id]
  by (simp add: split_usersScript failAt_def db0_def)


section \<open>The claim about extractTableName\<close>

lemma extract_qualifiedCreate: "extractTableName up qualifiedCreate = runes ''public.users''"
  by (simp add: qualifiedCreate_def validate_defs extract_defs)

text \<open>
  Claim C6. The table name is the token behind CREATE TABLE (behind IF NOT EXISTS when
  that is there), without its schema qualification up to and including the last dot,
  without a trailing parenthesis and without the double quotes around it. The source
  cuts at \<^verbatim>\<open>strings.Index(tableName, ".")\<close>, the first dot (line 310), under the comment
  that the schema prefix is removed: for a name of three parts the schema stays in the
  name extracted, where the extraction in the claim's words gives the table.
\<close>

theorem qualified_table_name_keeps_schema:
  "extractTableName id (runes ''CREATE TABLE app.public.users (id int)'') = runes ''public.users'' \<and>
   spec_tableName id (runes ''CREATE TABLE app.public.users (id int)'') = runes ''users''"
  using extract_qualifiedCreate [of id]
  by (simp add: qualifiedCreate_def spec_tableName_def spec_afterLastDot_def validate_defs extract_defs)

end
